theory Spec2Isabelle
  imports Main "HOL-Library.Sublist"
begin

section \<open>The JavaScript runtime operations the components call\<close>

text \<open>
  The three components (\<^verbatim>\<open>src/App.tsx\<close>, its Markdown-rendering sibling and
  \<^verbatim>\<open>src/Editor.tsx\<close>) are React function components whose logic is string
  rewriting with \<^verbatim>\<open>String.prototype.replace\<close> over regular expressions built from
  the selected words. This section models those runtime operations; the sections after it
  embed the handlers themselves.

  A JavaScript string is modelled as a \<^typ>\<open>string\<close>: a list of code units, here the
  code units below 256.
\<close>

abbreviation (input) backslash :: char where
  "backslash \<equiv> CHR 0x5C"

abbreviation (input) dollar :: char where
  "dollar \<equiv> CHR ''$''"

subsection \<open>\<^verbatim>\<open>String.prototype.trim\<close>\<close>

text \<open>White space and line terminators among the code units below 256: TAB, LF, VT, FF,
  CR, SP and NBSP.\<close>

definition is_js_space :: "char \<Rightarrow> bool" where
  "is_js_space c = (c \<in> set [CHR 0x09, CHR 0x0A, CHR 0x0B, CHR 0x0C, CHR 0x0D, CHR 0x20, CHR 0xA0])"

definition trim :: "string \<Rightarrow> string" where
  "trim s = rev (dropWhile is_js_space (rev (dropWhile is_js_space s)))"

subsection \<open>\<^verbatim>\<open>Set\<close>: insertion-ordered, without duplicates\<close>

text \<open>
  A \<^verbatim>\<open>Set<string>\<close> is the list of its elements in insertion order.
  \<^verbatim>\<open>new Set(prev).add(x)\<close> appends \<open>x\<close> when it is absent and changes nothing when it
  is present; \<^verbatim>\<open>delete\<close> removes the element; \<^verbatim>\<open>Array.from\<close> lists the elements in
  insertion order, which is the list itself; \<^verbatim>\<open>size\<close> is its length.
\<close>

type_synonym js_set = "string list"

definition set_add :: "string \<Rightarrow> js_set \<Rightarrow> js_set" where
  "set_add x s = (if x \<in> set s then s else s @ [x])"

definition set_delete :: "string \<Rightarrow> js_set \<Rightarrow> js_set" where
  "set_delete x s = removeAll x s"

subsection \<open>Regular expressions: the fragment the components build\<close>

text \<open>
  The patterns of the components are: the literal class
  \<^verbatim>\<open>/[.*+?^${}()|[\]\\]/g\<close>, the literal \<^verbatim>\<open>/\n/g\<close>, and the patterns compiled at
  run time by \<^verbatim>\<open>new RegExp(...)\<close> from escaped words, alone or joined by \<open>|\<close> inside one
  group. The abstract syntax covers characters, the dot, classes, sequences, alternatives
  and groups.
\<close>

datatype re = Chr char | Dot | Cls "char list" | Seq "re list" | Alt "re list" | Grp re

text \<open>
  Backtracking matching at the start of a string: the list of the remainders after each
  way the pattern can match, in the order the backtracking matcher tries them (in an
  alternative, left before right). A match attempt at a position succeeds with the first
  element.
\<close>

fun rmatch :: "re \<Rightarrow> string \<Rightarrow> string list"
  and rmatch_seq :: "re list \<Rightarrow> string \<Rightarrow> string list"
  and rmatch_alt :: "re list \<Rightarrow> string \<Rightarrow> string list" where
  "rmatch (Chr c) s = (case s of [] \<Rightarrow> [] | x # xs \<Rightarrow> if x = c then [xs] else [])"
| "rmatch Dot s =
     (case s of [] \<Rightarrow> [] | x # xs \<Rightarrow> if x = CHR 0x0A \<or> x = CHR 0x0D then [] else [xs])"
| "rmatch (Cls cs) s = (case s of [] \<Rightarrow> [] | x # xs \<Rightarrow> if x \<in> set cs then [xs] else [])"
| "rmatch (Seq rs) s = rmatch_seq rs s"
| "rmatch (Alt rs) s = rmatch_alt rs s"
| "rmatch (Grp r) s = rmatch r s"
| "rmatch_seq [] s = [s]"
| "rmatch_seq (r # rs) s = concat (map (rmatch_seq rs) (rmatch r s))"
| "rmatch_alt [] s = []"
| "rmatch_alt (r # rs) s = rmatch r s @ rmatch_alt rs s"

text \<open>The length of the match at the start of \<open>s\<close>, if there is one.\<close>

definition exec_at :: "re \<Rightarrow> string \<Rightarrow> nat option" where
  "exec_at r s = (case rmatch r s of [] \<Rightarrow> None | rest # _ \<Rightarrow> Some (length s - length rest))"

subsection \<open>\<^verbatim>\<open>new RegExp(pattern, 'g')\<close>\<close>

text \<open>
  The syntax characters of a pattern, in the order of the class the components escape
  with: \<^verbatim>\<open>. * + ? ^ $ { } ( ) | [ ] \\<close>.
\<close>

definition syntax_chars :: string where
  "syntax_chars = ''.*+?^${}()|[]'' @ [backslash]"

datatype token = TChar char | TAny | TBar | TOpen | TClose

text \<open>
  Reading a pattern: a backslash followed by a syntax character is that character taken
  literally (an identity escape); the dot, the bar and the parentheses are operators; any
  other syntax character (quantifiers, assertions, classes, braces) and any other escape
  is outside the fragment, and so is a backslash at the end; every other character is a
  pattern character. \<open>None\<close> stands for a pattern that the constructor rejects with a
  \<^verbatim>\<open>SyntaxError\<close> or that this fragment does not cover.
\<close>

fun tokenise :: "string \<Rightarrow> token list option" where
  "tokenise [] = Some []"
| "tokenise [c] =
     (if c = CHR ''.'' then Some [TAny]
      else if c = CHR ''|'' then Some [TBar]
      else if c = CHR ''('' then Some [TOpen]
      else if c = CHR '')'' then Some [TClose]
      else if c \<in> set syntax_chars then None
      else Some [TChar c])"
| "tokenise (c # d # s) =
     (if c = backslash then
        (if d \<in> set syntax_chars then map_option ((#) (TChar d)) (tokenise s) else None)
      else if c = CHR ''.'' then map_option ((#) TAny) (tokenise (d # s))
      else if c = CHR ''|'' then map_option ((#) TBar) (tokenise (d # s))
      else if c = CHR ''('' then map_option ((#) TOpen) (tokenise (d # s))
      else if c = CHR '')'' then map_option ((#) TClose) (tokenise (d # s))
      else if c \<in> set syntax_chars then None
      else map_option ((#) (TChar c)) (tokenise (d # s)))"

text \<open>
  Building the syntax tree with a stack of open groups. A frame holds the finished
  alternatives of its disjunction and the terms of the alternative being read. A bar
  closes the current alternative, an opening parenthesis pushes a frame, a closing one
  pops it and appends the group to the frame below. At the end exactly one frame must be
  left.
\<close>

type_synonym frame = "re list \<times> re list"

definition close_frame :: "frame \<Rightarrow> re" where
  "close_frame f = Alt (fst f @ [Seq (snd f)])"

fun parse_tokens :: "frame list \<Rightarrow> token list \<Rightarrow> re option" where
  "parse_tokens [] ts = None"
| "parse_tokens [f] [] = Some (close_frame f)"
| "parse_tokens (f # g # fs) [] = None"
| "parse_tokens (f # fs) (TChar c # ts) = parse_tokens ((fst f, snd f @ [Chr c]) # fs) ts"
| "parse_tokens (f # fs) (TAny # ts) = parse_tokens ((fst f, snd f @ [Dot]) # fs) ts"
| "parse_tokens (f # fs) (TBar # ts) = parse_tokens ((fst f @ [Seq (snd f)], []) # fs) ts"
| "parse_tokens (f # fs) (TOpen # ts) = parse_tokens (([], []) # f # fs) ts"
| "parse_tokens [f] (TClose # ts) = None"
| "parse_tokens (f # g # fs) (TClose # ts) =
     parse_tokens ((fst g, snd g @ [Grp (close_frame f)]) # fs) ts"

definition RegExp :: "string \<Rightarrow> re option" where
  "RegExp pattern =
     (case tokenise pattern of None \<Rightarrow> None | Some ts \<Rightarrow> parse_tokens [([], [])] ts)"

subsection \<open>\<^verbatim>\<open>String.prototype.replace\<close> with a global pattern\<close>

text \<open>
  The replace algorithm first collects the matches from left to right: at each position it
  tries the pattern; after a match it continues behind the match, and after an empty match
  it steps one code unit forward. \<open>scan r pre s\<close> is the result for the rest \<open>s\<close> of a
  string whose part \<open>pre\<close> has been passed: the code units kept, and for each match the
  text before it, the matched text and the text after it.
\<close>

datatype piece = Keep char | Hit string string string

function scan :: "re \<Rightarrow> string \<Rightarrow> string \<Rightarrow> piece list" where
  "scan r pre [] = (case exec_at r [] of None \<Rightarrow> [] | Some n \<Rightarrow> [Hit pre [] []])"
| "scan r pre (c # cs) =
     (case exec_at r (c # cs) of
        None \<Rightarrow> Keep c # scan r (pre @ [c]) cs
      | Some 0 \<Rightarrow> Hit pre [] (c # cs) # Keep c # scan r (pre @ [c]) cs
      | Some (Suc n) \<Rightarrow>
          Hit pre (c # take n cs) (drop n cs) # scan r (pre @ c # take n cs) (drop n cs))"
  by pat_completeness auto
termination
  by (relation "measure (\<lambda>(r, pre, s). length s)") auto

text \<open>
  The replacement text of a template (\<^verbatim>\<open>GetSubstitution\<close>) for a pattern without
  capture groups: \<^verbatim>\<open>$$\<close> is a dollar sign, \<^verbatim>\<open>$&\<close> the matched text, \<^verbatim>\<open>$`\<close> the
  text before the match, \<^verbatim>\<open>$'\<close> the text after it; a dollar sign before anything else
  (a digit, with no group to refer to, included) stands for itself.
\<close>

fun GetSubstitution :: "string \<Rightarrow> string \<Rightarrow> string \<Rightarrow> string \<Rightarrow> string" where
  "GetSubstitution [] pre matched post = []"
| "GetSubstitution [c] pre matched post = [c]"
| "GetSubstitution (c # d # t) pre matched post =
     (if c = dollar \<and> d = dollar then dollar # GetSubstitution t pre matched post
      else if c = dollar \<and> d = CHR ''&'' then matched @ GetSubstitution t pre matched post
      else if c = dollar \<and> d = CHR 0x60 then pre @ GetSubstitution t pre matched post
      else if c = dollar \<and> d = CHR 0x27 then post @ GetSubstitution t pre matched post
      else c # GetSubstitution (d # t) pre matched post)"

fun piece_text :: "string \<Rightarrow> piece \<Rightarrow> string" where
  "piece_text template (Keep c) = [c]"
| "piece_text template (Hit pre matched post) =
     GetSubstitution template pre matched post"

definition replace_template :: "re \<Rightarrow> string \<Rightarrow> string \<Rightarrow> string" where
  "replace_template r template s = concat (map (piece_text template) (scan r [] s))"

text \<open>
  With a function as the replacement, the function is called once per match, from left
  to right, with the matched text; a state threaded through the calls stands for the
  variables the function closes over.
\<close>

fun replace_calls :: "('st \<Rightarrow> string \<Rightarrow> string \<times> 'st) \<Rightarrow> 'st \<Rightarrow> piece list \<Rightarrow> string \<times> 'st" where
  "replace_calls f st [] = ([], st)"
| "replace_calls f st (Keep c # ps) =
     (case replace_calls f st ps of (out, st') \<Rightarrow> (c # out, st'))"
| "replace_calls f st (Hit pre matched post # ps) =
     (case f st matched of (r, st1) \<Rightarrow>
        (case replace_calls f st1 ps of (out, st2) \<Rightarrow> (r @ out, st2)))"

definition replace_function ::
  "re \<Rightarrow> ('st \<Rightarrow> string \<Rightarrow> string \<times> 'st) \<Rightarrow> 'st \<Rightarrow> string \<Rightarrow> string \<times> 'st" where
  "replace_function r f st s = replace_calls f st (scan r [] s)"

subsection \<open>\<^verbatim>\<open>Array.prototype.join\<close> and number formatting\<close>

fun join :: "string \<Rightarrow> string list \<Rightarrow> string" where
  "join sep [] = []"
| "join sep [x] = x"
| "join sep (x # y # xs) = x @ sep @ join sep (y # xs)"

text \<open>The decimal numeral of a counter, as a template literal prints it.\<close>

fun string_of_nat :: "nat \<Rightarrow> string" where
  "string_of_nat n =
     (if n < 10 then [''0123456789'' ! n]
      else string_of_nat (n div 10) @ [''0123456789'' ! (n mod 10)])"

section \<open>The state of the components\<close>

text \<open>
  \<^verbatim>\<open>Editor\<close> keeps the source text and the selection set; both \<^verbatim>\<open>App\<close> components
  keep, besides these, the view mode, the generated quiz text and the answer list, and
  the Markdown-rendering \<^verbatim>\<open>App\<close> also a display mode. The handlers of \<^verbatim>\<open>App\<close> are
  written once, over every extension of its state.
\<close>

datatype viewModeType = Select_mode | Quiz_mode

datatype displayModeType = Markdown_display | Preview_display | Separate_display

record AnswerData =
  number :: nat
  word :: string

record editor_state =
  markdown :: string
  selections :: js_set

record app_state = editor_state +
  viewMode :: viewModeType
  quizText :: string
  quizAnswers :: "AnswerData list"

record app_md_state = app_state +
  displayMode :: displayModeType

text \<open>
  The two \<^verbatim>\<open>App\<close> components differ in the blank marker, in whether line feeds are
  turned into \<^verbatim>\<open><br />\<close>, and in how a missing selection object is treated.
\<close>

datatype variant = App_tsx | App_markdown

datatype js_error = TypeError | SyntaxError

section \<open>Pattern construction and the shared rewriting steps\<close>

text \<open>\<^verbatim>\<open>word.replace(/[.*+?^${}()|[\]\\]/g, '\\$&')\<close>\<close>

definition escapedWord :: "string \<Rightarrow> string" where
  "escapedWord w = replace_template (Cls syntax_chars) (backslash # ''$&'') w"

text \<open>\<^verbatim>\<open>text.replace(/\n/g, '<br />')\<close>\<close>

definition line_breaks :: "string \<Rightarrow> string" where
  "line_breaks s = replace_template (Chr (CHR 0x0A)) ''<br />'' s"

definition render_breaks :: "variant \<Rightarrow> string \<Rightarrow> string" where
  "render_breaks v s = (case v of App_tsx \<Rightarrow> line_breaks s | App_markdown \<Rightarrow> s)"

definition mark_open :: string where
  \<open>mark_open = ''<mark class="bg-yellow-300 px-1 rounded cursor-pointer">''\<close>

definition mark_close :: string where
  "mark_close = ''</mark>''"

definition blank_marker :: "variant \<Rightarrow> nat \<Rightarrow> string" where
  \<open>blank_marker v questionCounter =
     (case v of
        App_tsx \<Rightarrow> ''**( No.'' @ string_of_nat questionCounter @ '' )**''
      | App_markdown \<Rightarrow>
          ''<span class="question-target"> ( No.'' @ string_of_nat questionCounter
            @ '' ) </span>'')\<close>

section \<open>\<^verbatim>\<open>App\<close>: selecting, deselecting, generating, previewing\<close>

text \<open>
  \<open>handleSelection\<close> receives what \<^verbatim>\<open>window.getSelection()\<close> holds: \<open>None\<close> when
  there is no selection object, else the selected text. Without a selection object
  \<^verbatim>\<open>App.tsx\<close> calls \<^verbatim>\<open>toString\<close> on \<^verbatim>\<open>null\<close>, and its sibling, written with
  \<^verbatim>\<open>?.\<close>, gets \<^verbatim>\<open>undefined\<close> and adds nothing.
\<close>

definition handleSelection ::
  "variant \<Rightarrow> string option \<Rightarrow> 'a app_state_scheme \<Rightarrow> js_error + 'a app_state_scheme" where
  "handleSelection v selection st =
     (if viewMode st \<noteq> Select_mode then Inr st
      else case selection of
          None \<Rightarrow> (case v of App_tsx \<Rightarrow> Inl TypeError | App_markdown \<Rightarrow> Inr st)
        | Some text \<Rightarrow>
            (let selectedText = trim text
             in if selectedText \<noteq> []
                then Inr (st\<lparr>selections := set_add selectedText (selections st)\<rparr>)
                else Inr st))"

text \<open>The click event is given by the tag name and the inner text of its target.\<close>

definition handlePreviewClick ::
  "string \<Rightarrow> string \<Rightarrow> 'a app_state_scheme \<Rightarrow> 'a app_state_scheme" where
  "handlePreviewClick tagName innerText st =
     (if viewMode st = Select_mode \<and> tagName = ''MARK'' then
        (if innerText \<noteq> [] then st\<lparr>selections := set_delete innerText (selections st)\<rparr>
         else st)
      else st)"

text \<open>
  The \<^verbatim>\<open>forEach\<close> of \<open>generateAndSetQuiz\<close> over the selected words, on the variables
  \<open>newQuizText\<close>, \<open>questionCounter\<close> and \<open>newAnswers\<close>.
\<close>

fun quiz_forEach ::
  "variant \<Rightarrow> string list \<Rightarrow> string \<times> nat \<times> AnswerData list
     \<Rightarrow> js_error + (string \<times> nat \<times> AnswerData list)" where
  "quiz_forEach v [] vars = Inr vars"
| "quiz_forEach v (w # ws) (newQuizText, questionCounter, newAnswers) =
     (case RegExp (escapedWord w) of
        None \<Rightarrow> Inl SyntaxError
      | Some regex \<Rightarrow>
          quiz_forEach v ws
            (replace_template regex (blank_marker v questionCounter) newQuizText,
             questionCounter + 1,
             newAnswers @ [\<lparr>number = questionCounter, word = w\<rparr>]))"

definition generateAndSetQuiz ::
  "variant \<Rightarrow> 'a app_state_scheme \<Rightarrow> js_error + 'a app_state_scheme" where
  "generateAndSetQuiz v st =
     (if length (selections st) = 0 then Inr st
      else case quiz_forEach v (selections st) (markdown st, 1, []) of
          Inl e \<Rightarrow> Inl e
        | Inr (newQuizText, questionCounter, newAnswers) \<Rightarrow>
            Inr (st\<lparr>quizText := newQuizText, quizAnswers := newAnswers,
                    viewMode := Quiz_mode\<rparr>))"

text \<open>The \<^verbatim>\<open>forEach\<close> of \<open>highlightedText\<close>, on the variable \<open>tempText\<close>.\<close>

fun highlight_forEach :: "string list \<Rightarrow> string \<Rightarrow> js_error + string" where
  "highlight_forEach [] tempText = Inr tempText"
| "highlight_forEach (w # ws) tempText =
     (case RegExp (escapedWord w) of
        None \<Rightarrow> Inl SyntaxError
      | Some regex \<Rightarrow>
          highlight_forEach ws
            (replace_template regex (mark_open @ w @ mark_close) tempText))"

definition highlightedText :: "variant \<Rightarrow> 'a app_state_scheme \<Rightarrow> js_error + string" where
  "highlightedText v st =
     (if length (selections st) = 0 then Inr (render_breaks v (markdown st))
      else case highlight_forEach (selections st) (markdown st) of
          Inl e \<Rightarrow> Inl e
        | Inr tempText \<Rightarrow> Inr (render_breaks v tempText))"

definition previewContent :: "variant \<Rightarrow> 'a app_state_scheme \<Rightarrow> js_error + string" where
  "previewContent v st =
     (if viewMode st = Quiz_mode then Inr (render_breaks v (quizText st))
      else highlightedText v st)"

section \<open>\<^verbatim>\<open>Editor\<close>: creating the quiz in place\<close>

text \<open>
  The replacement function of \<open>createQuiz\<close>; the state is the variable
  \<open>questionCounter\<close> it increments. The blank it returns is the template literal
  \<^verbatim>\<open>({${questionCounter++}})\<close>.
\<close>

definition editor_marker :: "nat \<Rightarrow> string" where
  "editor_marker questionCounter = ''({'' @ string_of_nat questionCounter @ ''})''"

definition number_match :: "string list \<Rightarrow> nat \<Rightarrow> string \<Rightarrow> string \<times> nat" where
  "number_match wordsToReplace questionCounter matched =
     (if matched \<in> set wordsToReplace
      then (editor_marker questionCounter, questionCounter + 1)
      else (matched, questionCounter))"

definition createQuiz :: "editor_state \<Rightarrow> js_error + editor_state" where
  "createQuiz st =
     (if length (selections st) = 0 then Inr st
      else
        (let wordsToReplace = selections st;
             escapedWords = map escapedWord wordsToReplace
         in case RegExp (''('' @ join ''|'' escapedWords @ '')'') of
              None \<Rightarrow> Inl SyntaxError
            | Some regex \<Rightarrow>
                (case replace_function regex (number_match wordsToReplace) 1 (markdown st) of
                   (newMarkdown, questionCounter) \<Rightarrow>
                     Inr (st\<lparr>markdown := newMarkdown, selections := []\<rparr>))))"

section \<open>Reference functions of the specification\<close>

text \<open>
  The specification speaks of replacing every occurrence of a target by a marker. The
  reference for it works on the text alone, without patterns: scanning from the left,
  an occurrence of the non-empty word \<open>w\<close> at the current position is replaced by \<open>m\<close>
  and the scan continues behind it.
\<close>

function replace_every :: "string \<Rightarrow> string \<Rightarrow> string \<Rightarrow> string" where
  "replace_every w m [] = []"
| "replace_every w m (c # cs) =
     (if w \<noteq> [] \<and> prefix w (c # cs) then m @ replace_every w m (drop (length w) (c # cs))
      else c # replace_every w m cs)"
  by pat_completeness auto
termination
  by (relation "measure (\<lambda>(w, m, s). length s)") (auto simp: neq_Nil_conv)

text \<open>The pieces of a text between the occurrences that \<open>replace_every\<close> replaces.\<close>

function split_on :: "string \<Rightarrow> string \<Rightarrow> string list" where
  "split_on w [] = [[]]"
| "split_on w (c # cs) =
     (if w \<noteq> [] \<and> prefix w (c # cs) then [] # split_on w (drop (length w) (c # cs))
      else (c # hd (split_on w cs)) # tl (split_on w cs))"
  by pat_completeness auto
termination
  by (relation "measure (\<lambda>(w, s). length s)") (auto simp: neq_Nil_conv)

text \<open>The selection set holds distinct, non-empty words.\<close>

definition selections_ok :: "js_set \<Rightarrow> bool" where
  "selections_ok s = (distinct s \<and> [] \<notin> set s)"

text \<open>What escaping does to one character: a syntax character gets a backslash in front.\<close>

definition escape_char :: "char \<Rightarrow> string" where
  "escape_char c = (if c \<in> set syntax_chars then [backslash, c] else [c])"

text \<open>One answer entry per target, numbered from \<open>k\<close> in the order of the list.\<close>

fun numbered :: "nat \<Rightarrow> string list \<Rightarrow> AnswerData list" where
  "numbered k [] = []"
| "numbered k (w # ws) = \<lparr>number = k, word = w\<rparr> # numbered (Suc k) ws"

text \<open>
  The passes of quiz generation and of highlighting, one per target in the order of the
  list: each pass works on the text the earlier passes have left.
\<close>

fun blank_passes :: "variant \<Rightarrow> nat \<Rightarrow> string list \<Rightarrow> string \<Rightarrow> string" where
  "blank_passes v k [] t = t"
| "blank_passes v k (w # ws) t = blank_passes v (Suc k) ws (replace_every w (blank_marker v k) t)"

fun mark_passes :: "string list \<Rightarrow> string \<Rightarrow> string" where
  "mark_passes [] t = t"
| "mark_passes (w # ws) t = mark_passes ws (replace_every w (mark_open @ w @ mark_close) t)"

text \<open>
  The reference for \<open>createQuiz\<close>: scanning from the left, the first word of the list
  that occurs at the current position is a hit and the scan continues behind it. The
  result is the pieces between the hits and the hits, from left to right.
\<close>

function split_any :: "string list \<Rightarrow> string \<Rightarrow> string list \<times> string list" where
  "split_any ws [] = ([[]], [])"
| "split_any ws (c # cs) =
     (case find (\<lambda>w. w \<noteq> [] \<and> prefix w (c # cs)) ws of
        Some w \<Rightarrow>
          (case split_any ws (drop (length w) (c # cs)) of
             (segs, hits) \<Rightarrow> ([] # segs, w # hits))
      | None \<Rightarrow>
          (case split_any ws cs of (segs, hits) \<Rightarrow> ((c # hd segs) # tl segs, hits)))"
  by pat_completeness auto
termination
  by (relation "measure (\<lambda>(ws, s). length s)") (auto simp: find_Some_iff neq_Nil_conv)

text \<open>The pieces with one filling between each two neighbours.\<close>

fun weave :: "string list \<Rightarrow> string list \<Rightarrow> string" where
  "weave [] fs = []"
| "weave (s # ss) [] = s"
| "weave (s # ss) (f # fs) = s @ f @ weave ss fs"

text \<open>The pattern of a word taken literally, and the tokens of escaped words joined by bars.\<close>

abbreviation lit :: "string \<Rightarrow> re" where
  "lit w \<equiv> Seq (map Chr w)"

fun word_tokens :: "string list \<Rightarrow> token list" where
  "word_tokens [] = []"
| "word_tokens [w] = map TChar w"
| "word_tokens (w # w' # ws) = map TChar w @ TBar # word_tokens (w' # ws)"

text \<open>
  The label of a blank, which both markers carry, and the text around it in the marker
  of each component.
\<close>

definition blank_label :: "nat \<Rightarrow> string" where
  "blank_label k = ''( No.'' @ string_of_nat k @ '' )''"

definition marker_open :: "variant \<Rightarrow> string" where
  \<open>marker_open v =
     (case v of App_tsx \<Rightarrow> ''**'' | App_markdown \<Rightarrow> ''<span class="question-target"> '')\<close>

definition marker_close :: "variant \<Rightarrow> string" where
  "marker_close v = (case v of App_tsx \<Rightarrow> ''**'' | App_markdown \<Rightarrow> '' </span>'')"

text \<open>
  Putting the answers back: for each answer entry, every occurrence of the marker with its
  number is replaced by its word, the entries taken from the last to the first.
\<close>

fun fill_blanks :: "variant \<Rightarrow> AnswerData list \<Rightarrow> string \<Rightarrow> string" where
  "fill_blanks v [] t = t"
| "fill_blanks v (a # as) t =
     replace_every (blank_marker v (number a)) (word a) (fill_blanks v as t)"

section \<open>The runtime operations on escaped words\<close>

lemma rmatch_seq_chars:
  "rmatch_seq (map Chr w) s = (if prefix w s then [drop (length w) s] else [])"
proof (induction w arbitrary: s)
  case Nil
  show ?case by simp
next
  case (Cons c w)
  show ?case
  proof (cases s)
    case Nil
    then show ?thesis by simp
  next
    case (Cons x xs)
    then show ?thesis using Cons.IH [of xs] by simp
  qed
qed

lemma exec_at_literal:
  "exec_at (Alt [Seq (map Chr w)]) s = (if prefix w s then Some (length w) else None)"
  by (auto simp: exec_at_def rmatch_seq_chars dest: prefix_length_le)

lemma exec_at_Cls:
  "exec_at (Cls cs) s = (case s of [] \<Rightarrow> None | x # xs \<Rightarrow> if x \<in> set cs then Some 1 else None)"
  by (simp add: exec_at_def split: list.splits)

lemma exec_at_Chr:
  "exec_at (Chr c) s = (case s of [] \<Rightarrow> None | x # xs \<Rightarrow> if x = c then Some 1 else None)"
  by (simp add: exec_at_def split: list.splits)

lemma scan_Cls:
  "concat (map (piece_text (backslash # ''$&'')) (scan (Cls cs) pre s))
     = concat (map (\<lambda>c. if c \<in> set cs then [backslash, c] else [c]) s)"
  by (induction s arbitrary: pre) (simp_all add: exec_at_Cls)

lemma escapedWord_eq: "escapedWord w = concat (map escape_char w)"
  unfolding escapedWord_def replace_template_def escape_char_def by (rule scan_Cls)

lemma escapedWord_Cons: "escapedWord (c # w) = escape_char c @ escapedWord w"
  by (simp add: escapedWord_eq)

lemma escapedWord_Nil: "escapedWord [] = []"
  by (simp add: escapedWord_eq)

lemma tokenise_escape_char:
  "tokenise (escape_char c @ s) = map_option ((#) (TChar c)) (tokenise s)"
proof (cases "c \<in> set syntax_chars")
  case True
  then show ?thesis by (simp add: escape_char_def)
next
  case False
  then have ne: "c \<noteq> backslash" "c \<noteq> CHR ''.''" "c \<noteq> CHR ''|''" "c \<noteq> CHR ''(''" "c \<noteq> CHR '')''"
    by (auto simp: syntax_chars_def)
  show ?thesis
  proof (cases s)
    case Nil
    with False ne show ?thesis by (simp add: escape_char_def)
  next
    case (Cons d s')
    with False ne show ?thesis by (simp add: escape_char_def)
  qed
qed

lemma tokenise_escapedWord_append:
  "tokenise (escapedWord w @ s) = map_option ((@) (map TChar w)) (tokenise s)"
proof (induction w)
  case Nil
  show ?case by (simp add: escapedWord_Nil option.map_ident)
next
  case (Cons c w)
  show ?case
    by (simp add: escapedWord_Cons tokenise_escape_char Cons.IH option.map_comp comp_def)
qed

lemma tokenise_escapedWord: "tokenise (escapedWord w) = Some (map TChar w)"
  using tokenise_escapedWord_append [of w "[]"] by simp

lemma parse_tokens_chars:
  "parse_tokens (f # fs) (map TChar w @ ts) = parse_tokens ((fst f, snd f @ map Chr w) # fs) ts"
  by (induction w arbitrary: f) simp_all

lemma RegExp_escapedWord: "RegExp (escapedWord w) = Some (Alt [Seq (map Chr w)])"
  using parse_tokens_chars [of "([], [])" "[]" w "[]"]
  by (simp add: RegExp_def tokenise_escapedWord close_frame_def)

declare replace_every.simps(2) [simp del] split_on.simps(2) [simp del]

lemma GetSubstitution_plain:
  "dollar \<notin> set t \<Longrightarrow> GetSubstitution t pre matched post = t"
  by (induction t pre matched post rule: GetSubstitution.induct) auto

lemma scan_literal:
  "w \<noteq> [] \<Longrightarrow> dollar \<notin> set m \<Longrightarrow>
   concat (map (piece_text m) (scan (Alt [Seq (map Chr w)]) pre s)) = replace_every w m s"
proof (induction w m s arbitrary: pre rule: replace_every.induct)
  case (1 w m)
  then show ?case by (simp add: exec_at_literal)
next
  case (2 w m c cs)
  show ?case
  proof (cases "prefix w (c # cs)")
    case True
    from "2.prems" obtain n where n: "length w = Suc n" by (cases w) auto
    from True have w: "w = c # take n cs"
      using n by (metis prefix_def append_eq_conv_conj take_Suc_Cons)
    have d: "drop (length w) (c # cs) = drop n cs" using n by simp
    have "concat (map (piece_text m) (scan (Alt [Seq (map Chr w)]) (pre @ c # take n cs) (drop n cs)))
        = replace_every w m (drop n cs)"
      using "2.IH"(1) [of "pre @ c # take n cs"] True "2.prems" d by simp
    then show ?thesis
      using True n "2.prems"
      by (simp add: exec_at_literal replace_every.simps(2) d w [symmetric]
          GetSubstitution_plain)
  next
    case False
    have "concat (map (piece_text m) (scan (Alt [Seq (map Chr w)]) (pre @ [c]) cs))
        = replace_every w m cs"
      using "2.IH"(2) [of "pre @ [c]"] False "2.prems" by simp
    then show ?thesis
      using False by (simp add: exec_at_literal replace_every.simps(2))
  qed
qed

lemma replace_template_literal:
  "w \<noteq> [] \<Longrightarrow> dollar \<notin> set m \<Longrightarrow>
   replace_template (Alt [Seq (map Chr w)]) m s = replace_every w m s"
  by (simp add: replace_template_def scan_literal)

declare string_of_nat.simps [simp del]

lemma string_of_nat_digits: "set (string_of_nat n) \<subseteq> set ''0123456789''"
proof (induction n rule: string_of_nat.induct)
  case (1 n)
  have d: "''0123456789'' ! k \<in> set ''0123456789''" if "k < 10" for k
    using that by (intro nth_mem) simp
  show ?case
  proof (cases "n < 10")
    case True
    then show ?thesis using d [of n] by (subst string_of_nat.simps) simp
  next
    case False
    have "n mod 10 < 10" by simp
    then show ?thesis
      using False 1 d [of "n mod 10"] by (subst string_of_nat.simps) simp
  qed
qed

lemma dollar_notin_string_of_nat: "dollar \<notin> set (string_of_nat n)"
  using string_of_nat_digits [of n] by auto

lemma dollar_notin_blank_marker: "dollar \<notin> set (blank_marker v k)"
  by (cases v) (simp_all add: blank_marker_def dollar_notin_string_of_nat)

lemma dollar_notin_mark: "dollar \<notin> set mark_open" "dollar \<notin> set mark_close"
  by (simp_all add: mark_open_def mark_close_def)

lemma quiz_forEach_always:
  "\<exists>t. quiz_forEach v ws (s0, k, ans) = Inr (t, k + length ws, ans @ numbered k ws)"
proof (induction ws arbitrary: s0 k ans)
  case Nil
  show ?case by simp
next
  case (Cons w ws)
  obtain t where "quiz_forEach v ws
      (replace_template (Alt [Seq (map Chr w)]) (blank_marker v k) s0, Suc k,
       ans @ [\<lparr>number = k, word = w\<rparr>])
      = Inr (t, Suc k + length ws, (ans @ [\<lparr>number = k, word = w\<rparr>]) @ numbered (Suc k) ws)"
    using Cons.IH by blast
  then show ?case by (simp add: RegExp_escapedWord)
qed

lemma quiz_forEach_passes:
  "[] \<notin> set ws \<Longrightarrow>
   quiz_forEach v ws (s0, k, ans)
     = Inr (blank_passes v k ws s0, k + length ws, ans @ numbered k ws)"
proof (induction ws arbitrary: s0 k ans)
  case Nil
  show ?case by simp
next
  case (Cons w ws)
  then have w: "w \<noteq> []" and ws: "[] \<notin> set ws" by auto
  show ?case
    using Cons.IH [OF ws] w
    by (simp add: RegExp_escapedWord replace_template_literal dollar_notin_blank_marker)
qed

lemma highlight_forEach_always: "\<exists>t. highlight_forEach ws s0 = Inr t"
  by (induction ws arbitrary: s0) (simp_all add: RegExp_escapedWord)

lemma highlight_forEach_passes:
  "[] \<notin> set ws \<Longrightarrow> list_all (\<lambda>w. dollar \<notin> set w) ws \<Longrightarrow>
   highlight_forEach ws s0 = Inr (mark_passes ws s0)"
proof (induction ws arbitrary: s0)
  case Nil
  show ?case by simp
next
  case (Cons w ws)
  then have w: "w \<noteq> []" "dollar \<notin> set w" and ws: "[] \<notin> set ws" "list_all (\<lambda>w. dollar \<notin> set w) ws"
    by auto
  show ?case
    using Cons.IH [OF ws] w
    by (simp add: RegExp_escapedWord replace_template_literal dollar_notin_mark)
qed

lemma map_number_numbered: "map number (numbered k ws) = [k..<k + length ws]"
  by (induction ws arbitrary: k) (simp_all add: upt_rec)

lemma map_word_numbered: "map word (numbered k ws) = ws"
  by (induction ws arbitrary: k) simp_all

lemma trim_blank: "list_all is_js_space s \<Longrightarrow> trim s = []"
proof -
  assume "list_all is_js_space s"
  then have d: "dropWhile is_js_space s = []" by (simp add: list_all_iff)
  show ?thesis unfolding trim_def d by simp
qed

lemma line_breaks_eq:
  "line_breaks s = concat (map (\<lambda>c. if c = CHR 0x0A then ''<br />'' else [c]) s)"
proof -
  have "concat (map (piece_text ''<br />'') (scan (Chr (CHR 0x0A)) pre s))
      = concat (map (\<lambda>c. if c = CHR 0x0A then ''<br />'' else [c]) s)" for pre
    by (induction s arbitrary: pre) (simp_all add: exec_at_Chr)
  then show ?thesis by (simp add: line_breaks_def replace_template_def)
qed

lemma set_add_idem: "set_add x (set_add x s) = set_add x s"
  by (simp add: set_add_def)

lemma generate_result:
  assumes "selections st \<noteq> []"
  shows "\<exists>t. generateAndSetQuiz v st
     = Inr (st\<lparr>quizText := t, quizAnswers := numbered 1 (selections st), viewMode := Quiz_mode\<rparr>)"
proof -
  obtain t where "quiz_forEach v (selections st) (markdown st, 1, [])
      = Inr (t, 1 + length (selections st), [] @ numbered 1 (selections st))"
    using quiz_forEach_always by blast
  with assms have "generateAndSetQuiz v st
     = Inr (st\<lparr>quizText := t, quizAnswers := numbered 1 (selections st), viewMode := Quiz_mode\<rparr>)"
    by (simp add: generateAndSetQuiz_def)
  then show ?thesis by blast
qed

section \<open>The selection set stays well-formed\<close>

text \<open>
  The set starts empty, \<open>handleSelection\<close> adds trimmed, non-empty text only, and
  \<open>handlePreviewClick\<close> only removes: every state the handlers reach holds distinct,
  non-empty words. The theorems below that assume this of the selection set assume no more
  than the handlers guarantee.
\<close>

lemma selections_ok_empty: "selections_ok []"
  by (simp add: selections_ok_def)

lemma handleSelection_keeps_ok:
  "selections_ok (selections st) \<Longrightarrow> handleSelection v sel st = Inr st' \<Longrightarrow>
   selections_ok (selections st')"
  by (auto simp: handleSelection_def selections_ok_def set_add_def Let_def
      split: if_splits option.splits variant.splits)

lemma handlePreviewClick_keeps_ok:
  "selections_ok (selections st) \<Longrightarrow> selections_ok (selections (handlePreviewClick tag p st))"
  by (auto simp: handlePreviewClick_def selections_ok_def set_delete_def distinct_removeAll)

section \<open>The pattern and the scan of \<^verbatim>\<open>createQuiz\<close>\<close>

declare split_any.simps(2) [simp del]

lemma tokenise_open: "tokenise (CHR ''('' # s) = map_option ((#) TOpen) (tokenise s)"
  by (cases s) simp_all

lemma tokenise_bar: "tokenise (CHR ''|'' # s) = map_option ((#) TBar) (tokenise s)"
  by (cases s) simp_all

lemma tokenise_close: "tokenise (CHR '')'' # s) = map_option ((#) TClose) (tokenise s)"
  by (cases s) simp_all

lemma tokenise_join:
  "tokenise (join ''|'' (map escapedWord ws) @ s)
     = map_option ((@) (word_tokens ws)) (tokenise s)"
proof (induction ws rule: word_tokens.induct)
  case 1
  show ?case by (simp add: option.map_ident)
next
  case (2 w)
  show ?case by (simp add: tokenise_escapedWord_append)
next
  case (3 w w' ws)
  then show ?case
    by (simp add: tokenise_escapedWord_append tokenise_bar option.map_comp comp_def)
qed

lemma parse_tokens_words:
  "parse_tokens ((alts, []) # fs) (word_tokens (w # ws) @ ts)
     = parse_tokens ((alts @ map lit (butlast (w # ws)), map Chr (last (w # ws))) # fs) ts"
proof (induction ws arbitrary: w alts)
  case Nil
  show ?case using parse_tokens_chars [of "(alts, [])" fs w ts] by simp
next
  case (Cons w' ws)
  have "parse_tokens ((alts, []) # fs) (word_tokens (w # w' # ws) @ ts)
      = parse_tokens ((alts, map Chr w) # fs) (TBar # word_tokens (w' # ws) @ ts)"
    using parse_tokens_chars [of "(alts, [])" fs w "TBar # word_tokens (w' # ws) @ ts"] by simp
  also have "\<dots> = parse_tokens ((alts @ [lit w], []) # fs) (word_tokens (w' # ws) @ ts)"
    by simp
  also have "\<dots> = parse_tokens (((alts @ [lit w]) @ map lit (butlast (w' # ws)),
       map Chr (last (w' # ws))) # fs) ts"
    by (rule Cons.IH)
  finally show ?case by simp
qed

lemma RegExp_alternatives:
  assumes "ws \<noteq> []"
  shows "RegExp (''('' @ join ''|'' (map escapedWord ws) @ '')'')
     = Some (Alt [Seq [Grp (Alt (map lit ws))]])"
proof -
  from assms obtain w ws' where ws: "ws = w # ws'" by (cases ws) auto
  have t: "tokenise (''('' @ join ''|'' (map escapedWord ws) @ '')'')
      = Some (TOpen # word_tokens ws @ [TClose])"
    using tokenise_join [of ws "'')''"] by (simp add: tokenise_open)
  have "parse_tokens [([], [])] (TOpen # word_tokens ws @ [TClose])
      = parse_tokens [([], []), ([], [])] (word_tokens (w # ws') @ [TClose])"
    by (simp add: ws)
  also have "\<dots> = parse_tokens [([] @ map lit (butlast (w # ws')), map Chr (last (w # ws'))), ([], [])]
       [TClose]"
    by (rule parse_tokens_words)
  also have "\<dots> = Some (Alt [Seq [Grp (Alt (map lit (butlast ws) @ [lit (last ws)]))]])"
    by (simp add: close_frame_def ws)
  also have "map lit (butlast ws) @ [lit (last ws)] = map lit (butlast ws @ [last ws])"
    by simp
  also have "butlast ws @ [last ws] = ws" using assms by simp
  finally have p: "parse_tokens [([], [])] (TOpen # word_tokens ws @ [TClose])
      = Some (Alt [Seq [Grp (Alt (map lit ws))]])" .
  show ?thesis unfolding RegExp_def t using p by simp
qed

lemma rmatch_alt_lits:
  "rmatch_alt (map lit ws) s
     = concat (map (\<lambda>w. if prefix w s then [drop (length w) s] else []) ws)"
  by (induction ws) (simp_all add: rmatch_seq_chars)

lemma concat_rmatch_seq_Nil: "concat (map (rmatch_seq []) xs) = xs"
  by (induction xs) simp_all

lemma exec_at_alternatives:
  "exec_at (Alt [Seq [Grp (Alt (map lit ws))]]) s
     = map_option length (find (\<lambda>w. prefix w s) ws)"
proof -
  have r: "rmatch (Alt [Seq [Grp (Alt (map lit ws))]]) s
      = concat (map (\<lambda>w. if prefix w s then [drop (length w) s] else []) ws)"
    by (simp add: rmatch_alt_lits concat_rmatch_seq_Nil)
  have "(case concat (map (\<lambda>w. if prefix w s then [drop (length w) s] else []) ws) of
           [] \<Rightarrow> None | rest # _ \<Rightarrow> Some (length s - length rest))
      = map_option length (find (\<lambda>w. prefix w s) ws)"
    by (induction ws) (auto dest: prefix_length_le)
  then show ?thesis unfolding exec_at_def r .
qed

lemma split_any_cases:
  obtains (hit) w where "find (\<lambda>w. w \<noteq> [] \<and> prefix w (c # cs)) ws = Some w"
      "w \<in> set ws" "w \<noteq> []" "prefix w (c # cs)"
      "split_any ws (c # cs) = ([] # fst (split_any ws (drop (length w) (c # cs))),
         w # snd (split_any ws (drop (length w) (c # cs))))"
  | (miss) "find (\<lambda>w. w \<noteq> [] \<and> prefix w (c # cs)) ws = None"
      "split_any ws (c # cs) = ((c # hd (fst (split_any ws cs))) # tl (fst (split_any ws cs)),
         snd (split_any ws cs))"
proof (cases "find (\<lambda>w. w \<noteq> [] \<and> prefix w (c # cs)) ws")
  case None
  then show ?thesis
    by (intro miss) (simp_all add: split_any.simps(2) split: prod.splits)
next
  case (Some w)
  then have "w \<in> set ws" "w \<noteq> []" "prefix w (c # cs)"
    by (auto simp: find_Some_iff)
  with Some show ?thesis
    by (intro hit [of w]) (simp_all add: split_any.simps(2) split: prod.splits)
qed

lemma split_any_nonempty: "fst (split_any ws s) \<noteq> []"
proof (cases s)
  case Nil
  then show ?thesis by simp
next
  case (Cons c cs)
  show ?thesis unfolding Cons by (cases rule: split_any_cases [of c cs ws]) simp_all
qed

lemma split_any_length: "length (fst (split_any ws s)) = Suc (length (snd (split_any ws s)))"
proof (induction ws s rule: split_any.induct)
  case (1 ws)
  show ?case by simp
next
  case (2 ws c cs)
  show ?case
  proof (cases rule: split_any_cases [of c cs ws])
    case (hit w)
    then show ?thesis using "2.IH"(2) by simp
  next
    case miss
    then show ?thesis using "2.IH"(1) split_any_nonempty [of ws cs] by simp
  qed
qed

lemma weave_Cons_hd:
  "segs \<noteq> [] \<Longrightarrow> weave ((c # hd segs) # tl segs) fs = c # weave segs fs"
  by (cases segs; cases fs) simp_all

lemma split_any_weave: "weave (fst (split_any ws s)) (snd (split_any ws s)) = s"
proof (induction ws s rule: split_any.induct)
  case (1 ws)
  show ?case by simp
next
  case (2 ws c cs)
  show ?case
  proof (cases rule: split_any_cases [of c cs ws])
    case (hit w)
    then have "w @ drop (length w) (c # cs) = c # cs"
      by (metis append_take_drop_id prefix_def append_eq_conv_conj)
    then show ?thesis using hit "2.IH"(2) by simp
  next
    case miss
    then show ?thesis using "2.IH"(1) by (simp add: weave_Cons_hd split_any_nonempty)
  qed
qed

lemma split_any_hits: "set (snd (split_any ws s)) \<subseteq> set ws"
proof (induction ws s rule: split_any.induct)
  case (1 ws)
  show ?case by simp
next
  case (2 ws c cs)
  show ?case
  proof (cases rule: split_any_cases [of c cs ws])
    case (hit w)
    then show ?thesis using "2.IH"(2) by simp
  next
    case miss
    then show ?thesis using "2.IH"(1) by simp
  qed
qed

lemma split_any_hd_prefix: "prefix (hd (fst (split_any ws s))) s"
proof (cases s)
  case Nil
  then show ?thesis by simp
next
  case (Cons c cs)
  have "prefix (hd (fst (split_any ws cs))) cs"
    using split_any_weave [of ws cs] split_any_nonempty [of ws cs]
    by (cases "fst (split_any ws cs)"; cases "snd (split_any ws cs)") (auto simp: prefix_def)
  then show ?thesis unfolding Cons by (cases rule: split_any_cases [of c cs ws]) simp_all
qed

lemma split_any_segments:
  "[] \<notin> set ws \<Longrightarrow> g \<in> set (fst (split_any ws s)) \<Longrightarrow> w \<in> set ws \<Longrightarrow> \<not> sublist w g"
proof (induction ws s arbitrary: g rule: split_any.induct)
  case (1 ws)
  then show ?case by auto
next
  case (2 ws c cs)
  from "2.prems" have wne: "w \<noteq> []" by auto
  show ?case
  proof (cases rule: split_any_cases [of c cs ws])
    case (hit u)
    with "2.prems" have "g = [] \<or> g \<in> set (fst (split_any ws (drop (length u) (c # cs))))"
      by auto
    then show ?thesis
      using "2.IH"(2) [OF hit(1)] "2.prems" wne by auto
  next
    case miss
    let ?segs = "fst (split_any ws cs)"
    have ne: "?segs \<noteq> []" by (rule split_any_nonempty)
    from miss "2.prems" have "g = c # hd ?segs \<or> g \<in> set (tl ?segs)" by auto
    then show ?thesis
    proof
      assume g: "g = c # hd ?segs"
      have a: "\<not> sublist w (hd ?segs)"
        using "2.IH"(1) [OF miss(1)] "2.prems" ne by simp
      have b: "\<not> prefix w (c # hd ?segs)"
      proof
        assume "prefix w (c # hd ?segs)"
        moreover have "prefix (c # hd ?segs) (c # cs)"
          using split_any_hd_prefix [of ws cs] by simp
        ultimately have "prefix w (c # cs)" by (rule prefix_order.trans)
        with miss(1) "2.prems" wne show False by (auto simp: find_None_iff)
      qed
      show ?thesis using a b by (simp add: g sublist_Cons_right)
    next
      assume "g \<in> set (tl ?segs)"
      then have "g \<in> set ?segs" using ne by (meson list.set_sel(2))
      then show ?thesis using "2.IH"(1) [OF miss(1)] "2.prems" by simp
    qed
  qed
qed

lemma find_nonempty_prefix:
  "[] \<notin> set ws \<Longrightarrow> find (\<lambda>w. prefix w s) ws = find (\<lambda>w. w \<noteq> [] \<and> prefix w s) ws"
  by (induction ws) auto

lemma replace_calls_alternatives:
  "[] \<notin> set ws \<Longrightarrow>
   replace_calls (number_match ws) k (scan (Alt [Seq [Grp (Alt (map lit ws))]]) pre s)
     = (weave (fst (split_any ws s))
          (map editor_marker [k..<k + length (snd (split_any ws s))]),
        k + length (snd (split_any ws s)))"
proof (induction ws s arbitrary: pre k rule: split_any.induct)
  case (1 ws)
  then have "find (\<lambda>w. w = []) ws = None" by (auto simp: find_None_iff)
  then show ?case by (simp add: exec_at_alternatives)
next
  case (2 ws c cs)
  let ?R = "Alt [Seq [Grp (Alt (map lit ws))]]"
  have ex: "exec_at ?R (c # cs) = map_option length (find (\<lambda>w. w \<noteq> [] \<and> prefix w (c # cs)) ws)"
    using "2.prems" by (simp add: exec_at_alternatives find_nonempty_prefix)
  show ?case
  proof (cases rule: split_any_cases [of c cs ws])
    case (hit w)
    from hit(3) obtain n where n: "length w = Suc n" by (cases w) auto
    from hit(4) have w: "c # take n cs = w"
      using n by (metis prefix_def append_eq_conv_conj take_Suc_Cons)
    have d: "drop (length w) (c # cs) = drop n cs" using n by simp
    have sc: "scan ?R pre (c # cs) = Hit pre w (drop n cs) # scan ?R (pre @ w) (drop n cs)"
      by (simp add: ex hit(1) n w)
    have ih: "replace_calls (number_match ws) (Suc k) (scan ?R (pre @ w) (drop n cs))
        = (weave (fst (split_any ws (drop n cs)))
             (map editor_marker [Suc k..<Suc k + length (snd (split_any ws (drop n cs)))]),
           Suc k + length (snd (split_any ws (drop n cs))))"
      using "2.IH"(2) [OF hit(1) "2.prems", of "Suc k" "pre @ w"] d by simp
    have nm: "number_match ws k w = (editor_marker k, Suc k)"
      using hit(2) by (simp add: number_match_def)
    show ?thesis
      unfolding sc hit(5) d
      by (simp add: nm ih upt_conv_Cons del: upt_Suc)
  next
    case miss
    have sc: "scan ?R pre (c # cs) = Keep c # scan ?R (pre @ [c]) cs"
      by (simp add: ex miss(1))
    show ?thesis
      unfolding sc miss(2)
      using "2.IH"(1) [OF miss(1) "2.prems", of k "pre @ [c]"]
      by (simp add: weave_Cons_hd split_any_nonempty)
  qed
qed

section \<open>Replacing every occurrence: the pieces between the occurrences\<close>

lemma replace_every_hit:
  "w \<noteq> [] \<Longrightarrow> prefix w (c # cs) \<Longrightarrow>
   replace_every w m (c # cs) = m @ replace_every w m (drop (length w) (c # cs))"
  by (simp add: replace_every.simps(2))

lemma replace_every_miss:
  "\<not> (w \<noteq> [] \<and> prefix w (c # cs)) \<Longrightarrow>
   replace_every w m (c # cs) = c # replace_every w m cs"
  by (simp only: replace_every.simps(2) if_False)

lemma split_on_cases:
  obtains (hit) "w \<noteq> []" "prefix w (c # cs)"
      "split_on w (c # cs) = [] # split_on w (drop (length w) (c # cs))"
  | (miss) "\<not> (w \<noteq> [] \<and> prefix w (c # cs))"
      "split_on w (c # cs) = (c # hd (split_on w cs)) # tl (split_on w cs)"
  by (cases "w \<noteq> [] \<and> prefix w (c # cs)") (simp_all add: split_on.simps(2))

lemma split_on_nonempty: "split_on w s \<noteq> []"
proof (cases s)
  case Nil
  then show ?thesis by simp
next
  case (Cons c cs)
  show ?thesis unfolding Cons by (cases rule: split_on_cases [of w c cs]) simp_all
qed

lemma join_Cons_hd: "segs \<noteq> [] \<Longrightarrow> join m ((c # hd segs) # tl segs) = c # join m segs"
  by (cases segs; cases "tl segs") auto

lemma join_Nil_Cons: "segs \<noteq> [] \<Longrightarrow> join m ([] # segs) = m @ join m segs"
  by (cases segs) simp_all

lemma join_split_on: "join w (split_on w s) = s"
proof (induction w s rule: split_on.induct)
  case (1 w)
  show ?case by simp
next
  case (2 w c cs)
  show ?case
  proof (cases rule: split_on_cases [of w c cs])
    case hit
    then have "w @ drop (length w) (c # cs) = c # cs"
      by (metis prefix_def append_eq_conv_conj)
    then show ?thesis using hit "2.IH"(1) by (simp add: join_Nil_Cons split_on_nonempty)
  next
    case miss
    then show ?thesis using "2.IH"(2) by (simp add: join_Cons_hd split_on_nonempty)
  qed
qed

lemma replace_every_join: "replace_every w m s = join m (split_on w s)"
proof (induction w s rule: split_on.induct)
  case (1 w)
  show ?case by simp
next
  case (2 w c cs)
  show ?case
  proof (cases rule: split_on_cases [of w c cs])
    case hit
    then show ?thesis
      using "2.IH"(1) by (simp add: replace_every_hit join_Nil_Cons split_on_nonempty)
  next
    case miss
    then show ?thesis
      using "2.IH"(2) by (simp add: replace_every_miss join_Cons_hd split_on_nonempty)
  qed
qed

lemma split_on_hd_prefix: "prefix (hd (split_on w s)) s"
proof (cases s)
  case Nil
  then show ?thesis by simp
next
  case (Cons c cs)
  have "prefix (hd (split_on w cs)) cs"
    using join_split_on [of w cs] split_on_nonempty [of w cs]
    by (cases "(w, split_on w cs)" rule: join.cases) (auto simp: prefix_def)
  then show ?thesis unfolding Cons by (cases rule: split_on_cases [of w c cs]) simp_all
qed

lemma split_on_segments:
  "w \<noteq> [] \<Longrightarrow> g \<in> set (split_on w s) \<Longrightarrow> \<not> sublist w g"
proof (induction w s arbitrary: g rule: split_on.induct)
  case (1 w)
  then show ?case by auto
next
  case (2 w c cs)
  show ?case
  proof (cases rule: split_on_cases [of w c cs])
    case hit
    with "2.prems" have "g = [] \<or> g \<in> set (split_on w (drop (length w) (c # cs)))"
      by auto
    then show ?thesis using "2.IH"(1) hit "2.prems" by auto
  next
    case miss
    let ?segs = "split_on w cs"
    have ne: "?segs \<noteq> []" by (rule split_on_nonempty)
    from miss "2.prems" have "g = c # hd ?segs \<or> g \<in> set (tl ?segs)" by auto
    then show ?thesis
    proof
      assume g: "g = c # hd ?segs"
      have a: "\<not> sublist w (hd ?segs)"
        using "2.IH"(2) [OF miss(1)] "2.prems" ne by simp
      have b: "\<not> prefix w (c # hd ?segs)"
      proof
        assume "prefix w (c # hd ?segs)"
        moreover have "prefix (c # hd ?segs) (c # cs)"
          using split_on_hd_prefix [of w cs] by simp
        ultimately have "prefix w (c # cs)" by (rule prefix_order.trans)
        with miss(1) "2.prems" show False by simp
      qed
      show ?thesis using a b by (simp add: g sublist_Cons_right)
    next
      assume "g \<in> set (tl ?segs)"
      then have "g \<in> set ?segs" using ne by (meson list.set_sel(2))
      then show ?thesis using "2.IH"(2) [OF miss(1)] "2.prems" by simp
    qed
  qed
qed

section \<open>The passes of generating and highlighting\<close>

lemma blank_passes_snoc:
  "blank_passes v k (ws @ [w]) t
     = replace_every w (blank_marker v (k + length ws)) (blank_passes v k ws t)"
  by (induction ws arbitrary: k t) simp_all

lemma mark_passes_snoc:
  "mark_passes (ws @ [w]) t = replace_every w (mark_open @ w @ mark_close) (mark_passes ws t)"
  by (induction ws arbitrary: t) simp_all

lemma blank_pass_step:
  assumes "k < length ws"
  shows "blank_passes v 1 (take (Suc k) ws) t
     = join (blank_marker v (Suc k)) (split_on (ws ! k) (blank_passes v 1 (take k ws) t))"
proof -
  have "take (Suc k) ws = take k ws @ [ws ! k]"
    using assms by (rule take_Suc_conv_app_nth)
  then show ?thesis
    using assms by (simp add: blank_passes_snoc replace_every_join min_def)
qed

lemma mark_pass_step:
  assumes "k < length ws"
  shows "mark_passes (take (Suc k) ws) t
     = join (mark_open @ ws ! k @ mark_close) (split_on (ws ! k) (mark_passes (take k ws) t))"
proof -
  have "take (Suc k) ws = take k ws @ [ws ! k]"
    using assms by (rule take_Suc_conv_app_nth)
  then show ?thesis by (simp add: mark_passes_snoc replace_every_join)
qed

lemma generate_passes:
  assumes "selections st \<noteq> []" and "[] \<notin> set (selections st)"
  shows "generateAndSetQuiz v st
     = Inr (st\<lparr>quizText := blank_passes v 1 (selections st) (markdown st),
               quizAnswers := numbered 1 (selections st), viewMode := Quiz_mode\<rparr>)"
  using assms by (simp add: generateAndSetQuiz_def quiz_forEach_passes)

lemma highlight_passes:
  assumes "[] \<notin> set (selections st)" and "list_all (\<lambda>w. dollar \<notin> set w) (selections st)"
  shows "highlightedText v st = Inr (render_breaks v (mark_passes (selections st) (markdown st)))"
proof (cases "selections st = []")
  case True
  then show ?thesis by (simp add: highlightedText_def)
next
  case False
  then show ?thesis using assms by (simp add: highlightedText_def highlight_forEach_passes)
qed

lemma click_selections:
  "viewMode st = Select_mode \<Longrightarrow> p \<noteq> [] \<Longrightarrow>
   handlePreviewClick ''MARK'' p st = st\<lparr>selections := removeAll p (selections st)\<rparr>"
  by (simp add: handlePreviewClick_def set_delete_def)

section \<open>Putting the answers back\<close>

lemma unique_position:
  "c \<notin> set A \<Longrightarrow> c \<notin> set Z \<Longrightarrow> A @ c # Z = P @ c # Z' \<Longrightarrow> P = A \<and> Z' = Z"
proof (induction A arbitrary: P)
  case Nil
  show ?case
  proof (cases P)
    case Nil
    with Nil.prems show ?thesis by simp
  next
    case (Cons p P')
    with Nil.prems have "Z = P' @ c # Z'" by simp
    with Nil.prems show ?thesis by simp
  qed
next
  case (Cons a A)
  show ?case
  proof (cases P)
    case Nil
    with Cons.prems show ?thesis by simp
  next
    case (Cons p P')
    with Cons.prems have "A @ c # Z = P' @ c # Z'" "p = a" "c \<notin> set A" by simp_all
    with Cons.IH [of P'] Cons.prems(2) show ?thesis using Cons by simp
  qed
qed

lemma first_position:
  "c \<notin> set P \<Longrightarrow> c \<notin> set A \<Longrightarrow> P @ c # Y = A @ c # Y' \<Longrightarrow> P = A \<and> Y = Y'"
proof (induction P arbitrary: A)
  case Nil
  show ?case
  proof (cases A)
    case Nil
    with Nil.prems show ?thesis by simp
  next
    case (Cons a A')
    with Nil.prems show ?thesis by simp
  qed
next
  case (Cons p P)
  show ?case
  proof (cases A)
    case Nil
    with Cons.prems show ?thesis by simp
  next
    case (Cons a A')
    with Cons.prems have "P @ c # Y = A' @ c # Y'" "p = a" "c \<notin> set P" "c \<notin> set A'"
      by simp_all
    with Cons.IH [of A'] show ?thesis using Cons by simp
  qed
qed

lemma marker_overlap:
  assumes m: "m = A @ c # L @ B" and A: "A \<noteq> []" and cA: "c \<notin> set A"
    and cL: "c \<notin> set L" and cB: "c \<notin> set B" and hL: "hd A \<notin> set L"
    and x: "x \<noteq> []" and p: "prefix m (x @ m)"
  shows "sublist (c # L) x"
proof -
  from p obtain z where z: "x @ m = m @ z" unfolding prefix_def by blast
  have cx: "c \<in> set x"
  proof (rule ccontr)
    assume "c \<notin> set x"
    then have n: "c \<notin> set (x @ A)" using cA by simp
    have e: "(x @ A) @ c # (L @ B) = A @ c # (L @ B @ z)" using z unfolding m by simp
    have "x @ A = A" using first_position [OF n cA e] by simp
    with x show False by simp
  qed
  then obtain x1 x2 where x12: "x = x1 @ c # x2" and cx1: "c \<notin> set x1"
    by (meson split_list_first)
  have e: "x1 @ c # (x2 @ A @ c # L @ B) = A @ c # (L @ B @ z)"
    using z unfolding m x12 by simp
  have x1: "x1 = A" and r: "x2 @ (A @ c # L @ B) = L @ (B @ z)"
    using first_position [OF cx1 cA e] by simp_all
  from r obtain u where u: "(x2 = L @ u \<and> u @ (A @ c # L @ B) = B @ z)
      \<or> (x2 @ u = L \<and> A @ c # L @ B = u @ (B @ z))"
    unfolding append_eq_append_conv2 by blast
  show ?thesis
  proof (cases "\<exists>u'. x2 = L @ u'")
    case True
    then obtain u' where "x2 = L @ u'" by blast
    then have "x = A @ (c # L) @ u'" unfolding x12 x1 by simp
    then show ?thesis unfolding sublist_def by blast
  next
    case False
    with u have a: "x2 @ u = L" "A @ c # L @ B = u @ (B @ z)" by blast+
    from False a(1) have "u \<noteq> []" by (metis append_Nil2)
    then obtain e u' where ue: "u = e # u'" by (cases u) auto
    from A obtain a0 A' where Ae: "A = a0 # A'" by (cases A) auto
    from a(2) have "a0 = e" unfolding ue Ae by simp
    moreover have "e \<in> set L" using a(1) unfolding ue by auto
    ultimately show ?thesis using hL unfolding Ae by simp
  qed
qed

lemma sublist_sep_rest:
  assumes "m \<noteq> []" and "hd m \<notin> set y" and "sublist y (g @ m @ R)"
  shows "sublist y g \<or> sublist y (m @ R)"
proof -
  from assms(3) consider "sublist y g" | "sublist y (m @ R)"
    | y1 y2 where "y = y1 @ y2" "suffix y1 g" "prefix y2 (m @ R)"
    unfolding sublist_append by blast
  then show ?thesis
  proof cases
    case 3
    show ?thesis
    proof (cases y2)
      case Nil
      with 3 have "suffix y g" by simp
      then show ?thesis by (simp add: suffix_imp_sublist)
    next
      case (Cons e y2')
      from assms(1) obtain c m' where "m = c # m'" by (cases m) auto
      with 3(3) Cons have "e = hd m" by simp
      with 3(1) Cons assms(2) show ?thesis by simp
    qed
  qed simp_all
qed

lemma sublist_rest_sep:
  assumes "m \<noteq> []" and "last m \<notin> set y" and "sublist y (m @ R)"
  shows "sublist y m \<or> sublist y R"
proof -
  from assms(3) consider "sublist y m" | "sublist y R"
    | y1 y2 where "y = y1 @ y2" "suffix y1 m" "prefix y2 R"
    unfolding sublist_append by blast
  then show ?thesis
  proof cases
    case 3
    show ?thesis
    proof (cases "y1 = []")
      case True
      with 3 have "prefix y R" by simp
      then show ?thesis by (simp add: prefix_imp_sublist)
    next
      case False
      from 3(2) obtain q where "m = q @ y1" unfolding suffix_def by blast
      with False have "last m = last y1" by simp
      moreover have "last y1 \<in> set y" using False 3(1) by simp
      ultimately show ?thesis using assms(2) by simp
    qed
  qed simp_all
qed

lemma sublist_join_free:
  "m \<noteq> [] \<Longrightarrow> hd m \<notin> set y \<Longrightarrow> last m \<notin> set y \<Longrightarrow> sublist y (join m segs) \<Longrightarrow>
   (\<exists>g\<in>set segs. sublist y g) \<or> sublist y m"
proof (induction segs rule: induct_list012)
  case 1
  then show ?case by simp
next
  case (2 g)
  then show ?case by simp
next
  case (3 g g' gs)
  from "3.prems"(4) have "sublist y (g @ m @ join m (g' # gs))" by simp
  then have "sublist y g \<or> sublist y (m @ join m (g' # gs))"
    using "3.prems"(1,2) by (intro sublist_sep_rest)
  then show ?case
  proof
    assume "sublist y g"
    then show ?thesis by simp
  next
    assume "sublist y (m @ join m (g' # gs))"
    then have "sublist y m \<or> sublist y (join m (g' # gs))"
      using "3.prems"(1,3) by (intro sublist_rest_sep)
    then show ?thesis
    proof
      assume "sublist y m"
      then show ?thesis by simp
    next
      assume "sublist y (join m (g' # gs))"
      then have "(\<exists>g\<in>set (g' # gs). sublist y g) \<or> sublist y m"
        using "3.IH"(2) "3.prems"(1,2,3) by blast
      then show ?thesis by auto
    qed
  qed
qed

lemma segment_sublist: "g \<in> set segs \<Longrightarrow> sublist g (join m segs)"
proof (induction segs rule: induct_list012)
  case 1
  then show ?case by simp
next
  case (2 x)
  then show ?case by simp
next
  case (3 x x' xs)
  from "3.prems" have "g = x \<or> g \<in> set (x' # xs)" by auto
  then show ?case
  proof
    assume "g = x"
    then show ?thesis by simp
  next
    assume "g \<in> set (x' # xs)"
    then have "sublist g (join m (x' # xs))" by (rule "3.IH"(2))
    then have "sublist g ((x @ m) @ join m (x' # xs))"
      unfolding sublist_append by blast
    then show ?thesis by simp
  qed
qed

lemma skip_segment_sep:
  "m \<noteq> [] \<Longrightarrow> (\<And>x. x \<noteq> [] \<Longrightarrow> suffix x g \<Longrightarrow> \<not> prefix m (x @ m)) \<Longrightarrow>
   replace_every m w (g @ m @ R) = g @ w @ replace_every m w R"
proof (induction g)
  case Nil
  then obtain c m' where m: "m = c # m'" by (cases m) auto
  have "replace_every m w (c # m' @ R) = w @ replace_every m w (drop (length m) (c # m' @ R))"
    by (rule replace_every_hit) (simp_all add: m)
  then show ?case by (simp add: m)
next
  case (Cons a g)
  have n: "\<not> prefix m ((a # g) @ m)" by (rule Cons.prems(2)) simp_all
  have "\<not> prefix m ((a # g) @ m @ R)"
  proof
    assume "prefix m ((a # g) @ m @ R)"
    moreover have "prefix ((a # g) @ m) ((a # g) @ m @ R)" by simp
    moreover have "length m \<le> length ((a # g) @ m)" by simp
    ultimately have "prefix m ((a # g) @ m)" by (rule prefix_length_prefix)
    with n show False ..
  qed
  then have "replace_every m w (a # g @ m @ R) = a # replace_every m w (g @ m @ R)"
    by (intro replace_every_miss) simp
  moreover have "replace_every m w (g @ m @ R) = g @ w @ replace_every m w R"
  proof (rule Cons.IH [OF Cons.prems(1)])
    fix x :: string
    assume "x \<noteq> []" "suffix x g"
    then show "\<not> prefix m (x @ m)" by (intro Cons.prems(2)) (simp_all add: suffix_ConsI)
  qed
  ultimately show ?case by simp
qed

lemma skip_last_segment:
  "(\<And>x. x \<noteq> [] \<Longrightarrow> suffix x g \<Longrightarrow> \<not> prefix m (x @ m)) \<Longrightarrow> replace_every m w g = g"
proof (induction g)
  case Nil
  show ?case by simp
next
  case (Cons a g)
  have n: "\<not> prefix m ((a # g) @ m)" by (rule Cons.prems) simp_all
  have "\<not> prefix m (a # g)"
  proof
    assume "prefix m (a # g)"
    then have "prefix m ((a # g) @ m)" by (rule prefix_prefix)
    with n show False ..
  qed
  then have "replace_every m w (a # g) = a # replace_every m w g"
    by (intro replace_every_miss) simp
  moreover have "replace_every m w g = g"
  proof (rule Cons.IH)
    fix x :: string
    assume "x \<noteq> []" "suffix x g"
    then show "\<not> prefix m (x @ m)" by (intro Cons.prems) (simp_all add: suffix_ConsI)
  qed
  ultimately show ?case by simp
qed

lemma replace_back_join:
  "m \<noteq> [] \<Longrightarrow>
   (\<And>g x. g \<in> set segs \<Longrightarrow> x \<noteq> [] \<Longrightarrow> suffix x g \<Longrightarrow> \<not> prefix m (x @ m)) \<Longrightarrow>
   replace_every m w (join m segs) = join w segs"
proof (induction segs rule: induct_list012)
  case 1
  show ?case by simp
next
  case (2 g)
  have "replace_every m w g = g"
    by (rule skip_last_segment) (rule "2.prems"(2), simp_all)
  then show ?case by simp
next
  case (3 g g' gs)
  have a: "replace_every m w (g @ m @ join m (g' # gs))
      = g @ w @ replace_every m w (join m (g' # gs))"
    by (rule skip_segment_sep [OF "3.prems"(1)]) (rule "3.prems"(2), simp_all)
  have b: "replace_every m w (join m (g' # gs)) = join w (g' # gs)"
  proof (rule "3.IH"(2) [OF "3.prems"(1)])
    fix h x :: string
    assume "h \<in> set (g' # gs)" "x \<noteq> []" "suffix x h"
    then show "\<not> prefix m (x @ m)" by (intro "3.prems"(2) [of h x]) simp_all
  qed
  show ?case using a b by simp
qed

lemma blank_marker_parts: "blank_marker v k = marker_open v @ blank_label k @ marker_close v"
  by (cases v) (simp_all add: blank_marker_def marker_open_def marker_close_def blank_label_def)

lemma string_of_nat_nonempty: "string_of_nat n \<noteq> []"
  by (subst string_of_nat.simps) simp

lemma string_of_nat_last: "last (string_of_nat n) = ''0123456789'' ! (n mod 10)"
  by (subst string_of_nat.simps) simp

lemma string_of_nat_butlast:
  "butlast (string_of_nat n) = (if n < 10 then [] else string_of_nat (n div 10))"
  by (subst string_of_nat.simps) simp

lemma digit_inj: "a < 10 \<Longrightarrow> b < 10 \<Longrightarrow> ''0123456789'' ! a = ''0123456789'' ! b \<Longrightarrow> a = b"
proof -
  have d: "distinct ''0123456789''" by simp
  assume "a < 10" "b < 10" "''0123456789'' ! a = ''0123456789'' ! b"
  then show "a = b" using d by (simp add: nth_eq_iff_index_eq)
qed

lemma string_of_nat_inj: "string_of_nat n = string_of_nat k \<Longrightarrow> n = k"
proof (induction n arbitrary: k rule: string_of_nat.induct)
  case (1 n)
  from "1.prems" have l: "last (string_of_nat n) = last (string_of_nat k)"
    and b: "butlast (string_of_nat n) = butlast (string_of_nat k)" by simp_all
  have m: "n mod 10 = k mod 10"
    using l unfolding string_of_nat_last by (intro digit_inj) simp_all
  show ?case
  proof (cases "n < 10")
    case True
    with b have "k < 10"
      unfolding string_of_nat_butlast using string_of_nat_nonempty [of "k div 10"]
      by (simp split: if_splits)
    with True m show ?thesis by simp
  next
    case False
    with b have k: "\<not> k < 10" and e: "string_of_nat (n div 10) = string_of_nat (k div 10)"
      unfolding string_of_nat_butlast using string_of_nat_nonempty [of "n div 10"]
      by (simp_all split: if_splits)
    from "1.IH" [OF False e] have "n div 10 = k div 10" .
    with m show ?thesis by (metis div_mult_mod_eq)
  qed
qed

lemma notin_label_tail:
  "c \<notin> set '' No.'' \<Longrightarrow> c \<notin> set '' )'' \<Longrightarrow> c \<notin> set ''0123456789'' \<Longrightarrow>
   c \<notin> set ('' No.'' @ string_of_nat k @ '' )'')"
  unfolding set_append using string_of_nat_digits [of k] by blast

lemma notin_blank_label:
  "c \<noteq> CHR ''('' \<Longrightarrow> c \<notin> set '' No.'' \<Longrightarrow> c \<notin> set '' )'' \<Longrightarrow> c \<notin> set ''0123456789'' \<Longrightarrow>
   c \<notin> set (blank_label k)"
proof -
  assume "c \<noteq> CHR ''(''" "c \<notin> set '' No.''" "c \<notin> set '' )''" "c \<notin> set ''0123456789''"
  then have "c \<noteq> CHR ''(''" "c \<notin> set ('' No.'' @ string_of_nat k @ '' )'')"
    by (simp_all only: notin_label_tail not_False_eq_True)
  moreover have "blank_label k = CHR ''('' # ('' No.'' @ string_of_nat k @ '' )'')"
    by (simp add: blank_label_def)
  ultimately show ?thesis by (simp only: set_simps insert_iff) blast
qed

lemma paren_notin_label_tail: "CHR ''('' \<notin> set ('' No.'' @ string_of_nat k @ '' )'')"
  by (rule notin_label_tail) simp_all

lemma space_notin_string_of_nat: "CHR '' '' \<notin> set (string_of_nat k)"
proof -
  have "CHR '' '' \<notin> set ''0123456789''" by simp
  then show ?thesis using string_of_nat_digits [of k] by blast
qed

lemma marker_open_facts:
  "marker_open v \<noteq> []" "CHR ''('' \<notin> set (marker_open v)"
  by (cases v; simp add: marker_open_def)+

lemma marker_close_facts:
  "marker_close v \<noteq> []" "CHR ''('' \<notin> set (marker_close v)"
  by (cases v; simp add: marker_close_def)+

lemma marker_open_hd_tail: "hd (marker_open v) \<notin> set ('' No.'' @ string_of_nat k @ '' )'')"
  by (cases v; rule notin_label_tail; simp add: marker_open_def)

lemma blank_marker_nonempty: "blank_marker v k \<noteq> []"
  by (simp add: blank_marker_parts marker_open_facts)

lemma blank_marker_hd: "hd (blank_marker v k) \<notin> set (blank_label j)"
proof -
  have "hd (blank_marker v k) = hd (marker_open v)"
    using marker_open_facts(1) [of v] by (simp add: blank_marker_parts)
  moreover have "hd (marker_open v) \<notin> set (blank_label j)"
    by (cases v; rule notin_blank_label; simp add: marker_open_def)
  ultimately show ?thesis by simp
qed

lemma blank_marker_last: "last (blank_marker v k) \<notin> set (blank_label j)"
proof -
  have "last (blank_marker v k) = last (marker_close v)"
    using marker_close_facts(1) [of v] by (simp add: blank_marker_parts)
  moreover have "last (marker_close v) \<notin> set (blank_label j)"
    by (cases v; rule notin_blank_label; simp add: marker_close_def)
  ultimately show ?thesis by simp
qed

lemma blank_marker_overlap:
  assumes "x \<noteq> []" and "prefix (blank_marker v k) (x @ blank_marker v k)"
  shows "sublist (blank_label k) x"
proof -
  let ?L = "'' No.'' @ string_of_nat k @ '' )''"
  have m: "blank_marker v k = marker_open v @ CHR ''('' # ?L @ marker_close v"
    by (simp add: blank_marker_parts blank_label_def)
  have "sublist (CHR ''('' # ?L) x"
    by (rule marker_overlap [OF m marker_open_facts(1,2) paren_notin_label_tail
          marker_close_facts(2) marker_open_hd_tail assms])
  then show ?thesis by (simp add: blank_label_def)
qed

lemma label_in_marker:
  assumes "sublist (blank_label j) (blank_marker v k)"
  shows "j = k"
proof -
  let ?Lj = "'' No.'' @ string_of_nat j @ '' )''" and ?Lk = "'' No.'' @ string_of_nat k @ '' )''"
  from assms obtain P S where
    "marker_open v @ blank_label k @ marker_close v = P @ blank_label j @ S"
    unfolding sublist_def blank_marker_parts by blast
  then have e: "marker_open v @ CHR ''('' # (?Lk @ marker_close v) = P @ CHR ''('' # (?Lj @ S)"
    by (simp add: blank_label_def)
  have cZ: "CHR ''('' \<notin> set (?Lk @ marker_close v)"
    using paren_notin_label_tail [of k] marker_close_facts(2) [of v]
    by (simp only: set_append Un_iff) blast
  have "?Lj @ S = ?Lk @ marker_close v"
    using unique_position [OF marker_open_facts(2) cZ e] by simp
  then have d: "string_of_nat j @ CHR '' '' # ('')'' @ S)
      = string_of_nat k @ CHR '' '' # ('')'' @ marker_close v)" by simp
  have "string_of_nat j = string_of_nat k"
    using first_position [OF space_notin_string_of_nat space_notin_string_of_nat d] by simp
  then show ?thesis by (rule string_of_nat_inj)
qed

lemma round_trip_passes:
  "[] \<notin> set ws \<Longrightarrow>
   (\<And>j. k \<le> j \<Longrightarrow> j < k + length ws \<Longrightarrow> \<not> sublist (blank_label j) t) \<Longrightarrow>
   fill_blanks v (numbered k ws) (blank_passes v k ws t) = t"
proof (induction ws arbitrary: k t)
  case Nil
  show ?case by simp
next
  case (Cons w ws)
  let ?m = "blank_marker v k"
  let ?segs = "split_on w t"
  let ?t' = "replace_every w ?m t"
  have t': "?t' = join ?m ?segs" by (rule replace_every_join)
  have t: "join w ?segs = t" by (rule join_split_on)
  have seg: "sublist g t" if "g \<in> set ?segs" for g
    using segment_sublist [OF that, of w] unfolding t .
  have later: "\<not> sublist (blank_label j) ?t'" if "Suc k \<le> j" "j < Suc k + length ws" for j
  proof
    assume "sublist (blank_label j) ?t'"
    then have "sublist (blank_label j) (join ?m ?segs)" unfolding t' .
    then have "(\<exists>g\<in>set ?segs. sublist (blank_label j) g) \<or> sublist (blank_label j) ?m"
      by (intro sublist_join_free blank_marker_nonempty blank_marker_hd blank_marker_last)
    then show False
    proof
      assume "\<exists>g\<in>set ?segs. sublist (blank_label j) g"
      then obtain g where "g \<in> set ?segs" "sublist (blank_label j) g" by blast
      then have "sublist (blank_label j) t" using seg sublist_order.order.trans by blast
      moreover have "\<not> sublist (blank_label j) t"
        using that by (intro Cons.prems(2)) simp_all
      ultimately show False by simp
    next
      assume "sublist (blank_label j) ?m"
      then have "j = k" by (rule label_in_marker)
      with that show False by simp
    qed
  qed
  have rest: "fill_blanks v (numbered (Suc k) ws) (blank_passes v (Suc k) ws ?t') = ?t'"
    using Cons.prems(1) later by (intro Cons.IH) simp_all
  have hk: "\<not> sublist (blank_label k) t"
    by (rule Cons.prems(2)) simp_all
  have undo: "replace_every ?m w (join ?m ?segs) = join w ?segs"
  proof (rule replace_back_join [OF blank_marker_nonempty])
    fix g x :: string
    assume g: "g \<in> set ?segs" and x: "x \<noteq> []" "suffix x g"
    show "\<not> prefix ?m (x @ ?m)"
    proof
      assume "prefix ?m (x @ ?m)"
      with x(1) have "sublist (blank_label k) x" by (rule blank_marker_overlap)
      moreover have "sublist x g" using x(2) by (rule suffix_imp_sublist)
      moreover have "sublist g t" using g by (rule seg)
      ultimately have "sublist (blank_label k) t" using sublist_order.order.trans by blast
      with hk show False by simp
    qed
  qed
  have "fill_blanks v (numbered k (w # ws)) (blank_passes v k (w # ws) t)
      = replace_every ?m w (fill_blanks v (numbered (Suc k) ws) (blank_passes v (Suc k) ws ?t'))"
    by simp
  also have "\<dots> = replace_every ?m w ?t'" unfolding rest ..
  also have "\<dots> = t" unfolding t' undo t ..
  finally show ?case .
qed

section \<open>Selecting words\<close>

text \<open>
  C7. Adding a word to the selection set is idempotent: selecting the same text a second
  time succeeds and leaves the state that the first selection produced.
\<close>

theorem handleSelection_idempotent:
  "\<exists>st'. handleSelection v (Some w) st = Inr st'
      \<and> handleSelection v (Some w) st' = Inr st'"
  by (simp add: handleSelection_def Let_def set_add_idem)

theorem handleSelection_idempotent_witness:
  "handleSelection App_tsx (Some '' cat '')
     \<lparr>markdown = ''cat cat dog'', selections = [''dog''], viewMode = Select_mode,
      quizText = [], quizAnswers = []\<rparr>
   = Inr \<lparr>markdown = ''cat cat dog'', selections = [''dog'', ''cat''], viewMode = Select_mode,
      quizText = [], quizAnswers = []\<rparr>
   \<and> handleSelection App_tsx (Some '' cat '')
     \<lparr>markdown = ''cat cat dog'', selections = [''dog'', ''cat''], viewMode = Select_mode,
      quizText = [], quizAnswers = []\<rparr>
   = Inr \<lparr>markdown = ''cat cat dog'', selections = [''dog'', ''cat''], viewMode = Select_mode,
      quizText = [], quizAnswers = []\<rparr>"
  using handleSelection_idempotent [of App_tsx "'' cat ''"
      "\<lparr>markdown = ''cat cat dog'', selections = [''dog''], viewMode = Select_mode,
        quizText = [], quizAnswers = []\<rparr>"]
  by (simp add: handleSelection_def trim_def is_js_space_def set_add_def)

text \<open>
  C8. A selection that is empty or consists of white space only is ignored without an
  error: after trimming nothing remains, and the state is unchanged.
\<close>

theorem blank_selection_ignored:
  "list_all is_js_space w \<Longrightarrow> handleSelection v (Some w) st = Inr st"
  by (simp add: handleSelection_def trim_blank)

theorem blank_selection_ignored_witness:
  "list_all is_js_space ''  ''
   \<and> handleSelection App_markdown (Some ''  '')
     \<lparr>markdown = ''cat cat dog'', selections = [''dog''], viewMode = Select_mode,
      quizText = [], quizAnswers = [], displayMode = Separate_display\<rparr>
   = Inr \<lparr>markdown = ''cat cat dog'', selections = [''dog''], viewMode = Select_mode,
      quizText = [], quizAnswers = [], displayMode = Separate_display\<rparr>"
proof -
  have h: "list_all is_js_space ''  ''" by (simp add: is_js_space_def)
  show ?thesis using h blank_selection_ignored [OF h] by simp
qed

section \<open>Generating with an empty selection set\<close>

text \<open>
  C5. With an empty selection set, generating is a no-op in \<^verbatim>\<open>App\<close> and in
  \<^verbatim>\<open>Editor\<close>: the call returns normally and the state, with the quiz text and the
  answer list of an earlier generation, is the one it was given.
\<close>

theorem empty_selection_noop:
  assumes "selections st = []" and "selections est = []"
  shows "generateAndSetQuiz v st = Inr st \<and> createQuiz est = Inr est"
  using assms by (simp add: generateAndSetQuiz_def createQuiz_def)

theorem empty_selection_noop_witness:
  "generateAndSetQuiz App_tsx
     \<lparr>markdown = ''cat cat dog'', selections = [], viewMode = Quiz_mode,
      quizText = ''**( No.1 )** **( No.1 )** dog'',
      quizAnswers = [\<lparr>number = 1, word = ''cat''\<rparr>]\<rparr>
   = Inr \<lparr>markdown = ''cat cat dog'', selections = [], viewMode = Quiz_mode,
      quizText = ''**( No.1 )** **( No.1 )** dog'',
      quizAnswers = [\<lparr>number = 1, word = ''cat''\<rparr>]\<rparr>
   \<and> createQuiz \<lparr>markdown = ''({1}) ({2}) dog'', selections = []\<rparr>
     = Inr \<lparr>markdown = ''({1}) ({2}) dog'', selections = []\<rparr>"
  using empty_selection_noop [of
      "\<lparr>markdown = ''cat cat dog'', selections = [], viewMode = Quiz_mode,
        quizText = ''**( No.1 )** **( No.1 )** dog'',
        quizAnswers = [\<lparr>number = 1, word = ''cat''\<rparr>]\<rparr>"
      "\<lparr>markdown = ''({1}) ({2}) dog'', selections = []\<rparr>" App_tsx]
  by simp

section \<open>What generating changes\<close>

text \<open>
  C9. With a non-empty selection set, \<open>generateAndSetQuiz\<close> returns normally and changes
  only the quiz text, the answer list and the view mode, which becomes the quiz mode: the
  source text, the selection set and every further field of the state stay as they were.
\<close>

theorem generate_frame:
  assumes "selections st \<noteq> []"
  shows "\<exists>st'. generateAndSetQuiz v st = Inr st'
     \<and> markdown st' = markdown st \<and> selections st' = selections st
     \<and> app_state.more st' = app_state.more st \<and> viewMode st' = Quiz_mode
     \<and> st' = st\<lparr>quizText := quizText st', quizAnswers := quizAnswers st',
                 viewMode := Quiz_mode\<rparr>"
proof -
  obtain t where "generateAndSetQuiz v st
      = Inr (st\<lparr>quizText := t, quizAnswers := numbered 1 (selections st), viewMode := Quiz_mode\<rparr>)"
    using generate_result [OF assms] by blast
  then show ?thesis by simp
qed

theorem generate_frame_witness:
  "\<exists>st'. generateAndSetQuiz App_markdown
       \<lparr>markdown = ''cat cat dog'', selections = [''cat''], viewMode = Select_mode,
        quizText = [], quizAnswers = [], displayMode = Preview_display\<rparr> = Inr st'
     \<and> markdown st' = ''cat cat dog'' \<and> selections st' = [''cat'']
     \<and> app_state.more st' = \<lparr>displayMode = Preview_display\<rparr> \<and> viewMode st' = Quiz_mode"
  using generate_frame [of
      "\<lparr>markdown = ''cat cat dog'', selections = [''cat''], viewMode = Select_mode,
        quizText = [], quizAnswers = [], displayMode = Preview_display\<rparr>" App_markdown]
  by auto

section \<open>Numbering\<close>

text \<open>
  C2, as the code has it. Numbering follows the insertion order into the selection set,
  not the offsets in the source text: with a non-empty selection set, the answer list
  holds the targets in insertion order and the target inserted as the \<open>k\<close>-th has the
  number \<open>k\<close>. The numbering therefore depends on the order in which the targets were
  selected.
\<close>

theorem numbering_by_insertion_order:
  assumes "selections st \<noteq> []"
  shows "\<exists>st'. generateAndSetQuiz v st = Inr st'
     \<and> map word (quizAnswers st') = selections st
     \<and> map number (quizAnswers st') = [1..<Suc (length (selections st))]"
proof -
  obtain t where "generateAndSetQuiz v st
      = Inr (st\<lparr>quizText := t, quizAnswers := numbered 1 (selections st), viewMode := Quiz_mode\<rparr>)"
    using generate_result [OF assms] by blast
  then show ?thesis by (simp add: map_word_numbered map_number_numbered)
qed

theorem numbering_by_insertion_order_witness:
  "\<exists>st'. generateAndSetQuiz App_tsx
       \<lparr>markdown = ''The quick brown fox'', selections = [''fox'', ''quick''],
        viewMode = Select_mode, quizText = [], quizAnswers = []\<rparr> = Inr st'
     \<and> map word (quizAnswers st') = [''fox'', ''quick'']
     \<and> map number (quizAnswers st') = [1, 2]"
proof -
  have u: "[1..<Suc (length [''fox'', ''quick''])] = [1, 2]" by code_simp
  show ?thesis
    using numbering_by_insertion_order [of
      "\<lparr>markdown = ''The quick brown fox'', selections = [''fox'', ''quick''],
        viewMode = Select_mode, quizText = [], quizAnswers = []\<rparr>" App_tsx] u
    by (simp add: numeral_2_eq_2)
qed

text \<open>
  The two insertion orders of \<open>fox\<close> and \<open>quick\<close> give the same set and different
  numberings; selecting \<open>fox\<close> first gives it the number 1 although \<open>quick\<close> comes first
  in the text.
\<close>

theorem numbering_differs_with_insertion_order:
  "handleSelection App_tsx (Some ''quick'')
     \<lparr>markdown = ''The quick brown fox'', selections = [''fox''],
      viewMode = Select_mode, quizText = [], quizAnswers = []\<rparr>
   = Inr \<lparr>markdown = ''The quick brown fox'', selections = [''fox'', ''quick''],
      viewMode = Select_mode, quizText = [], quizAnswers = []\<rparr>
   \<and> handleSelection App_tsx (Some ''fox'')
     \<lparr>markdown = ''The quick brown fox'', selections = [''quick''],
      viewMode = Select_mode, quizText = [], quizAnswers = []\<rparr>
   = Inr \<lparr>markdown = ''The quick brown fox'', selections = [''quick'', ''fox''],
      viewMode = Select_mode, quizText = [], quizAnswers = []\<rparr>
   \<and> set [''fox'', ''quick''] = set [''quick'', ''fox'']
   \<and> generateAndSetQuiz App_tsx
     \<lparr>markdown = ''The quick brown fox'', selections = [''fox'', ''quick''],
      viewMode = Select_mode, quizText = [], quizAnswers = []\<rparr>
   = Inr \<lparr>markdown = ''The quick brown fox'', selections = [''fox'', ''quick''],
      viewMode = Quiz_mode, quizText = ''The **( No.2 )** brown **( No.1 )**'',
      quizAnswers = [\<lparr>number = 1, word = ''fox''\<rparr>, \<lparr>number = 2, word = ''quick''\<rparr>]\<rparr>
   \<and> generateAndSetQuiz App_tsx
     \<lparr>markdown = ''The quick brown fox'', selections = [''quick'', ''fox''],
      viewMode = Select_mode, quizText = [], quizAnswers = []\<rparr>
   = Inr \<lparr>markdown = ''The quick brown fox'', selections = [''quick'', ''fox''],
      viewMode = Quiz_mode, quizText = ''The **( No.1 )** brown **( No.2 )**'',
      quizAnswers = [\<lparr>number = 1, word = ''quick''\<rparr>, \<lparr>number = 2, word = ''fox''\<rparr>]\<rparr>"
  by code_simp

section \<open>Escaping\<close>

text \<open>
  C3. The pattern built from a target, for highlighting and for quiz generation alike,
  matches the literal target text and nothing else: the constructor accepts the escaped
  word, and at any position the pattern matches exactly when the target itself stands
  there, over the length of the target. In the source \<open>a.b and axb\<close> with the target
  \<open>a.b\<close>, only \<open>a.b\<close> is marked and \<open>axb\<close> is left as it is.
\<close>

theorem escaped_pattern_is_literal:
  "\<exists>r. RegExp (escapedWord w) = Some r
     \<and> (\<forall>s. exec_at r s = (if prefix w s then Some (length w) else None))"
  by (simp add: RegExp_escapedWord exec_at_literal)

theorem escaped_pattern_is_literal_witness:
  "(\<exists>r. RegExp (escapedWord ''a.b'') = Some r
      \<and> exec_at r ''a.b and axb'' = Some 3 \<and> exec_at r ''axb'' = None)
   \<and> highlightedText App_tsx
       \<lparr>markdown = ''a.b and axb'', selections = [''a.b''], viewMode = Select_mode,
        quizText = [], quizAnswers = []\<rparr>
     = Inr (mark_open @ ''a.b'' @ mark_close @ '' and axb'')
   \<and> generateAndSetQuiz App_tsx
       \<lparr>markdown = ''a.b and axb'', selections = [''a.b''], viewMode = Select_mode,
        quizText = [], quizAnswers = []\<rparr>
     = Inr \<lparr>markdown = ''a.b and axb'', selections = [''a.b''], viewMode = Quiz_mode,
        quizText = ''**( No.1 )** and axb'',
        quizAnswers = [\<lparr>number = 1, word = ''a.b''\<rparr>]\<rparr>"
proof -
  obtain r where r: "RegExp (escapedWord ''a.b'') = Some r"
      and m: "\<And>s. exec_at r s = (if prefix ''a.b'' s then Some (length ''a.b'') else None)"
    using escaped_pattern_is_literal [of "''a.b''"] by blast
  have "exec_at r ''a.b and axb'' = Some 3" "exec_at r ''axb'' = None"
    by (simp_all add: m)
  with r have a: "\<exists>r. RegExp (escapedWord ''a.b'') = Some r
      \<and> exec_at r ''a.b and axb'' = Some 3 \<and> exec_at r ''axb'' = None"
    by blast
  have b: "highlightedText App_tsx
       \<lparr>markdown = ''a.b and axb'', selections = [''a.b''], viewMode = Select_mode,
        quizText = [], quizAnswers = []\<rparr>
     = Inr (mark_open @ ''a.b'' @ mark_close @ '' and axb'')"
    by code_simp
  have c: "generateAndSetQuiz App_tsx
       \<lparr>markdown = ''a.b and axb'', selections = [''a.b''], viewMode = Select_mode,
        quizText = [], quizAnswers = []\<rparr>
     = Inr \<lparr>markdown = ''a.b and axb'', selections = [''a.b''], viewMode = Quiz_mode,
        quizText = ''**( No.1 )** and axb'',
        quizAnswers = [\<lparr>number = 1, word = ''a.b''\<rparr>]\<rparr>"
    by code_simp
  from a b c show ?thesis by blast
qed

text \<open>
  Without the escaping the dot would match any character: the model tells the two apart.
\<close>

lemma unescaped_dot_matches_other_text:
  "RegExp ''a.b'' = Some (Alt [Seq [Chr CHR ''a'', Dot, Chr CHR ''b'']])
   \<and> exec_at (Alt [Seq [Chr CHR ''a'', Dot, Chr CHR ''b'']]) ''axb'' = Some 3"
  by code_simp

section \<open>\<^verbatim>\<open>Editor\<close>: numbering by occurrence\<close>

text \<open>
  C10. With a non-empty selection set of non-empty words, \<open>createQuiz\<close> returns normally,
  writes the blanked text over the source text and empties the selection set. The source
  text is the pieces \<open>segs\<close> with the hits between them, the new text is the same pieces
  with the blanks numbered 1, 2, ... between them: the counter advances once per replaced
  occurrence, from left to right, not once per target. Every hit is a selected word and no
  piece contains one.
\<close>

theorem createQuiz_numbers_occurrences:
  assumes "selections st \<noteq> []" and "[] \<notin> set (selections st)"
    and "split_any (selections st) (markdown st) = (segs, hits)"
  shows "createQuiz st
       = Inr (st\<lparr>markdown := weave segs (map editor_marker [1..<Suc (length hits)]),
                 selections := []\<rparr>)
     \<and> markdown st = weave segs hits
     \<and> length segs = Suc (length hits)
     \<and> set hits \<subseteq> set (selections st)
     \<and> (\<forall>g\<in>set segs. \<forall>w\<in>set (selections st). \<not> sublist w g)"
proof -
  let ?ws = "selections st"
  have sp: "fst (split_any ?ws (markdown st)) = segs" "snd (split_any ?ws (markdown st)) = hits"
    using assms(3) by simp_all
  have re: "RegExp (''('' @ join ''|'' (map escapedWord ?ws) @ '')'')
      = Some (Alt [Seq [Grp (Alt (map lit ?ws))]])"
    using assms(1) by (rule RegExp_alternatives)
  have rf: "replace_function (Alt [Seq [Grp (Alt (map lit ?ws))]]) (number_match ?ws) 1 (markdown st)
      = (weave segs (map editor_marker [1..<Suc (length hits)]), Suc (length hits))"
    unfolding replace_function_def
    using replace_calls_alternatives [OF assms(2), of 1 "[]" "markdown st"]
    by (simp add: sp del: upt_Suc)
  have 1: "createQuiz st
       = Inr (st\<lparr>markdown := weave segs (map editor_marker [1..<Suc (length hits)]),
                 selections := []\<rparr>)"
  proof -
    have "length (selections st) \<noteq> 0" using assms(1) by simp
    then have "createQuiz st
        = (case replace_function (Alt [Seq [Grp (Alt (map lit ?ws))]]) (number_match ?ws) 1
              (markdown st) of
             (newMarkdown, questionCounter) \<Rightarrow>
               Inr (st\<lparr>markdown := newMarkdown, selections := []\<rparr>))"
      by (simp only: createQuiz_def Let_def re option.case if_False)
    then show ?thesis by (simp only: rf prod.case)
  qed
  have 2: "markdown st = weave segs hits"
    using split_any_weave [of ?ws "markdown st"] by (simp add: sp)
  have 3: "length segs = Suc (length hits)"
    using split_any_length [of ?ws "markdown st"] by (simp add: sp)
  have 4: "set hits \<subseteq> set ?ws"
    using split_any_hits [of ?ws "markdown st"] by (simp add: sp)
  have 5: "\<forall>g\<in>set segs. \<forall>w\<in>set ?ws. \<not> sublist w g"
    using split_any_segments [OF assms(2), of _ "markdown st"] by (auto simp: sp)
  from 1 2 3 4 5 show ?thesis by blast
qed

theorem createQuiz_numbers_occurrences_witness:
  "selections \<lparr>markdown = ''cat cat dog'', selections = [''cat'']\<rparr> \<noteq> []
   \<and> [] \<notin> set (selections \<lparr>markdown = ''cat cat dog'', selections = [''cat'']\<rparr>)
   \<and> split_any [''cat''] ''cat cat dog'' = ([[], '' '', '' dog''], [''cat'', ''cat''])
   \<and> createQuiz \<lparr>markdown = ''cat cat dog'', selections = [''cat'']\<rparr>
       = Inr \<lparr>markdown = ''({1}) ({2}) dog'', selections = []\<rparr>
   \<and> ''cat cat dog'' = weave [[], '' '', '' dog''] [''cat'', ''cat'']
   \<and> \<not> sublist ''cat'' '' dog''"
proof -
  let ?st = "\<lparr>markdown = ''cat cat dog'', selections = [''cat'']\<rparr>"
  have h1: "selections ?st \<noteq> []" by simp
  have h2: "[] \<notin> set (selections ?st)" by simp
  have h3: "split_any (selections ?st) (markdown ?st) = ([[], '' '', '' dog''], [''cat'', ''cat''])"
    by code_simp
  have m: "weave [[], '' '', '' dog''] (map editor_marker [1..<Suc (length [''cat'', ''cat''])])
      = ''({1}) ({2}) dog''"
    by code_simp
  show ?thesis
    using createQuiz_numbers_occurrences [OF h1 h2 h3] h3 unfolding m by simp
qed

section \<open>Generating and highlighting, pass by pass\<close>

text \<open>
  C1, as the code has it. With a non-empty selection set of distinct, non-empty targets,
  \<open>generateAndSetQuiz\<close> returns normally with one answer entry per target, in insertion
  order, numbered 1, 2, ... in ascending order. The quiz text is built in one pass per
  target, in insertion order: pass \<open>k + 1\<close> works on the text that the passes before it have
  left (for the first pass: the source text) and replaces in it every occurrence of its
  target, found from left to right one behind the other, by the marker with the target's
  number. That text is the pieces of \<open>split_on\<close> joined by the target, the result is the same
  pieces joined by the marker, and no piece contains the target. For targets without a
  dollar sign, highlighting works in the same passes with the wrapper around the target as
  the replacement. What an earlier pass has put into the text, marker text included, is
  text for the later passes; an occurrence in the source text that an earlier pass has
  consumed is not there for a later one.
\<close>

theorem generate_replaces_pass_by_pass:
  assumes "selections st \<noteq> []" and "[] \<notin> set (selections st)"
    and "distinct (selections st)"
  shows "generateAndSetQuiz v st
       = Inr (st\<lparr>quizText := blank_passes v 1 (selections st) (markdown st),
                 quizAnswers := numbered 1 (selections st), viewMode := Quiz_mode\<rparr>)
     \<and> map word (numbered 1 (selections st)) = selections st
     \<and> distinct (map word (numbered 1 (selections st)))
     \<and> map number (numbered 1 (selections st)) = [1..<Suc (length (selections st))]
     \<and> (\<forall>k<length (selections st).
           blank_passes v 1 (take (Suc k) (selections st)) (markdown st)
             = join (blank_marker v (Suc k))
                 (split_on (selections st ! k)
                    (blank_passes v 1 (take k (selections st)) (markdown st)))
         \<and> blank_passes v 1 (take k (selections st)) (markdown st)
             = join (selections st ! k)
                 (split_on (selections st ! k)
                    (blank_passes v 1 (take k (selections st)) (markdown st)))
         \<and> (\<forall>g\<in>set (split_on (selections st ! k)
                    (blank_passes v 1 (take k (selections st)) (markdown st))).
               \<not> sublist (selections st ! k) g))
     \<and> (list_all (\<lambda>w. dollar \<notin> set w) (selections st) \<longrightarrow>
          highlightedText v st
            = Inr (render_breaks v (mark_passes (selections st) (markdown st)))
          \<and> (\<forall>k<length (selections st).
                mark_passes (take (Suc k) (selections st)) (markdown st)
                  = join (mark_open @ selections st ! k @ mark_close)
                      (split_on (selections st ! k)
                         (mark_passes (take k (selections st)) (markdown st)))))"
proof -
  let ?ws = "selections st"
  have ne: "?ws ! k \<noteq> []" if "k < length ?ws" for k
    using that assms(2) by (metis nth_mem)
  have 1: "generateAndSetQuiz v st
       = Inr (st\<lparr>quizText := blank_passes v 1 ?ws (markdown st),
                 quizAnswers := numbered 1 ?ws, viewMode := Quiz_mode\<rparr>)"
    using assms(1,2) by (rule generate_passes)
  have 2: "map word (numbered 1 ?ws) = ?ws" by (rule map_word_numbered)
  have 3: "distinct (map word (numbered 1 ?ws))" unfolding 2 by (rule assms(3))
  have 4: "map number (numbered 1 ?ws) = [1..<Suc (length ?ws)]"
    by (simp add: map_number_numbered)
  have 5: "\<forall>k<length ?ws.
           blank_passes v 1 (take (Suc k) ?ws) (markdown st)
             = join (blank_marker v (Suc k))
                 (split_on (?ws ! k) (blank_passes v 1 (take k ?ws) (markdown st)))
         \<and> blank_passes v 1 (take k ?ws) (markdown st)
             = join (?ws ! k) (split_on (?ws ! k) (blank_passes v 1 (take k ?ws) (markdown st)))
         \<and> (\<forall>g\<in>set (split_on (?ws ! k) (blank_passes v 1 (take k ?ws) (markdown st))).
               \<not> sublist (?ws ! k) g)"
    using blank_pass_step [of _ ?ws v "markdown st"] ne
    by (auto simp: join_split_on dest: split_on_segments)
  have 6: "list_all (\<lambda>w. dollar \<notin> set w) ?ws \<longrightarrow>
          highlightedText v st = Inr (render_breaks v (mark_passes ?ws (markdown st)))
          \<and> (\<forall>k<length ?ws.
                mark_passes (take (Suc k) ?ws) (markdown st)
                  = join (mark_open @ ?ws ! k @ mark_close)
                      (split_on (?ws ! k) (mark_passes (take k ?ws) (markdown st))))"
    using highlight_passes [OF assms(2), of v] mark_pass_step [of _ ?ws "markdown st"]
    by blast
  from 1 2 3 4 5 6 show ?thesis by blast
qed

theorem generate_replaces_pass_by_pass_witness:
  "selections \<lparr>markdown = ''cat cat dog'', selections = [''cat''], viewMode = Select_mode,
       quizText = [], quizAnswers = []\<rparr> \<noteq> []
   \<and> [] \<notin> set [''cat''] \<and> distinct [''cat''] \<and> list_all (\<lambda>w. dollar \<notin> set w) [''cat'']
   \<and> generateAndSetQuiz App_tsx
       \<lparr>markdown = ''cat cat dog'', selections = [''cat''], viewMode = Select_mode,
        quizText = [], quizAnswers = []\<rparr>
     = Inr \<lparr>markdown = ''cat cat dog'', selections = [''cat''], viewMode = Quiz_mode,
        quizText = ''**( No.1 )** **( No.1 )** dog'',
        quizAnswers = [\<lparr>number = 1, word = ''cat''\<rparr>]\<rparr>
   \<and> highlightedText App_tsx
       \<lparr>markdown = ''cat cat dog'', selections = [''cat''], viewMode = Select_mode,
        quizText = [], quizAnswers = []\<rparr>
     = Inr (mark_open @ ''cat'' @ mark_close @ '' '' @ mark_open @ ''cat'' @ mark_close @ '' dog'')
   \<and> split_on ''cat'' ''cat cat dog'' = [[], '' '', '' dog'']"
proof -
  let ?st = "\<lparr>markdown = ''cat cat dog'', selections = [''cat''], viewMode = Select_mode,
       quizText = [], quizAnswers = []\<rparr>"
  have h1: "selections ?st \<noteq> []" by simp
  have h2: "[] \<notin> set (selections ?st)" by simp
  have h3: "distinct (selections ?st)" by simp
  have h4: "list_all (\<lambda>w. dollar \<notin> set w) (selections ?st)" by simp
  have b: "blank_passes App_tsx 1 [''cat''] ''cat cat dog'' = ''**( No.1 )** **( No.1 )** dog''"
    by code_simp
  have m: "render_breaks App_tsx (mark_passes [''cat''] ''cat cat dog'')
      = mark_open @ ''cat'' @ mark_close @ '' '' @ mark_open @ ''cat'' @ mark_close @ '' dog''"
    by code_simp
  have s: "split_on ''cat'' ''cat cat dog'' = [[], '' '', '' dog'']" by code_simp
  show ?thesis
    using generate_replaces_pass_by_pass [OF h1 h2 h3, of App_tsx] h4 b m s by simp
qed

text \<open>
  In the source \<open>cat 1\<close> with the targets \<open>cat\<close> and \<open>1\<close>, selected in this order, the pass
  of \<open>1\<close> rewrites the digit inside the marker of \<open>cat\<close>: the target \<open>cat\<close> occurs in the
  source text and no marker with its number 1 is in the quiz text.
\<close>

theorem later_target_rewrites_earlier_marker:
  "generateAndSetQuiz App_tsx
     \<lparr>markdown = ''cat 1'', selections = [''cat'', ''1''], viewMode = Select_mode,
      quizText = [], quizAnswers = []\<rparr>
   = Inr \<lparr>markdown = ''cat 1'', selections = [''cat'', ''1''], viewMode = Quiz_mode,
      quizText = ''**( No.**( No.2 )** )** **( No.2 )**'',
      quizAnswers = [\<lparr>number = 1, word = ''cat''\<rparr>, \<lparr>number = 2, word = ''1''\<rparr>]\<rparr>
   \<and> sublist ''cat'' ''cat 1''
   \<and> blank_marker App_tsx 1 = ''**( No.1 )**''
   \<and> \<not> sublist ''**( No.1 )**'' ''**( No.**( No.2 )** )** **( No.2 )**''"
  by code_simp

section \<open>Deselecting by a click\<close>

text \<open>
  C6, as the code has it. In the select mode, with a selection set of non-empty targets
  without a dollar sign: highlighting works in one pass per target, in insertion order,
  and each pass puts the wrapper with the target itself (not its escaped form) as the
  payload around every occurrence of the target in the text left by the passes before
  it. A click on a \<^verbatim>\<open>MARK\<close> element with the payload \<open>p\<close> removes \<open>p\<close> from the
  selection set and nothing else, so the next rendering has no pass for \<open>p\<close>; when \<open>p\<close>
  was the only target, the next rendering is the plain text.
\<close>

theorem click_removes_target:
  assumes "viewMode st = Select_mode" and "p \<noteq> []"
    and "[] \<notin> set (selections st)"
    and "list_all (\<lambda>w. dollar \<notin> set w) (selections st)"
  shows "highlightedText v st
       = Inr (render_breaks v (mark_passes (selections st) (markdown st)))
     \<and> (\<forall>k<length (selections st).
           mark_passes (take (Suc k) (selections st)) (markdown st)
             = join (mark_open @ selections st ! k @ mark_close)
                 (split_on (selections st ! k)
                    (mark_passes (take k (selections st)) (markdown st))))
     \<and> handlePreviewClick ''MARK'' p st = st\<lparr>selections := removeAll p (selections st)\<rparr>
     \<and> p \<notin> set (selections (handlePreviewClick ''MARK'' p st))
     \<and> set (selections (handlePreviewClick ''MARK'' p st)) = set (selections st) - {p}
     \<and> highlightedText v (handlePreviewClick ''MARK'' p st)
       = Inr (render_breaks v (mark_passes (removeAll p (selections st)) (markdown st)))
     \<and> (selections st = [p] \<longrightarrow>
          highlightedText v (handlePreviewClick ''MARK'' p st)
            = Inr (render_breaks v (markdown st)))"
proof -
  let ?st' = "handlePreviewClick ''MARK'' p st"
  have c: "?st' = st\<lparr>selections := removeAll p (selections st)\<rparr>"
    using assms(1,2) by (rule click_selections)
  have 1: "highlightedText v st
       = Inr (render_breaks v (mark_passes (selections st) (markdown st)))"
    using assms(3,4) by (rule highlight_passes)
  have 2: "\<forall>k<length (selections st).
           mark_passes (take (Suc k) (selections st)) (markdown st)
             = join (mark_open @ selections st ! k @ mark_close)
                 (split_on (selections st ! k)
                    (mark_passes (take k (selections st)) (markdown st)))"
    using mark_pass_step [of _ "selections st" "markdown st"] by blast
  have 3: "p \<notin> set (selections ?st')" by (simp add: c)
  have 4: "set (selections ?st') = set (selections st) - {p}" by (auto simp: c)
  have i: "[] \<notin> set (selections ?st')" using assms(3) by (simp add: c)
  have d: "list_all (\<lambda>w. dollar \<notin> set w) (selections ?st')"
    using assms(4) by (simp add: c list_all_iff)
  have 5: "highlightedText v ?st'
       = Inr (render_breaks v (mark_passes (removeAll p (selections st)) (markdown st)))"
    using highlight_passes [OF i d, of v] by (simp add: c)
  have 6: "selections st = [p] \<longrightarrow>
          highlightedText v ?st' = Inr (render_breaks v (markdown st))"
    using 5 by simp
  from c 1 2 3 4 5 6 show ?thesis by blast
qed

theorem click_removes_target_witness:
  "viewMode \<lparr>markdown = ''cat cat dog'', selections = [''cat''], viewMode = Select_mode,
       quizText = [], quizAnswers = []\<rparr> = Select_mode
   \<and> ''cat'' \<noteq> [] \<and> [] \<notin> set [''cat''] \<and> list_all (\<lambda>w. dollar \<notin> set w) [''cat'']
   \<and> highlightedText App_markdown
       \<lparr>markdown = ''cat cat dog'', selections = [''cat''], viewMode = Select_mode,
        quizText = [], quizAnswers = []\<rparr>
     = Inr (mark_open @ ''cat'' @ mark_close @ '' '' @ mark_open @ ''cat'' @ mark_close @ '' dog'')
   \<and> handlePreviewClick ''MARK'' ''cat''
       \<lparr>markdown = ''cat cat dog'', selections = [''cat''], viewMode = Select_mode,
        quizText = [], quizAnswers = []\<rparr>
     = \<lparr>markdown = ''cat cat dog'', selections = [], viewMode = Select_mode,
        quizText = [], quizAnswers = []\<rparr>
   \<and> highlightedText App_markdown
       (handlePreviewClick ''MARK'' ''cat''
          \<lparr>markdown = ''cat cat dog'', selections = [''cat''], viewMode = Select_mode,
           quizText = [], quizAnswers = []\<rparr>)
     = Inr ''cat cat dog''"
proof -
  let ?st = "\<lparr>markdown = ''cat cat dog'', selections = [''cat''], viewMode = Select_mode,
       quizText = [], quizAnswers = []\<rparr>"
  have h1: "viewMode ?st = Select_mode" by simp
  have h2: "''cat'' \<noteq> []" by simp
  have h3: "[] \<notin> set (selections ?st)" by simp
  have h4: "list_all (\<lambda>w. dollar \<notin> set w) (selections ?st)" by simp
  have m: "render_breaks App_markdown (mark_passes (selections ?st) (markdown ?st))
      = mark_open @ ''cat'' @ mark_close @ '' '' @ mark_open @ ''cat'' @ mark_close @ '' dog''"
    by code_simp
  note T = click_removes_target [OF h1 h2 h3 h4, of App_markdown]
  from T have "highlightedText App_markdown ?st
      = Inr (render_breaks App_markdown (mark_passes (selections ?st) (markdown ?st)))"
    by (rule conjunct1)
  then have a: "highlightedText App_markdown ?st
      = Inr (mark_open @ ''cat'' @ mark_close @ '' '' @ mark_open @ ''cat'' @ mark_close @ '' dog'')"
    unfolding m .
  from T have "handlePreviewClick ''MARK'' ''cat'' ?st
      = ?st\<lparr>selections := removeAll ''cat'' (selections ?st)\<rparr>"
    by blast
  then have b: "handlePreviewClick ''MARK'' ''cat'' ?st
      = \<lparr>markdown = ''cat cat dog'', selections = [], viewMode = Select_mode,
        quizText = [], quizAnswers = []\<rparr>"
    by simp
  from T have "selections ?st = [''cat''] \<longrightarrow>
      highlightedText App_markdown (handlePreviewClick ''MARK'' ''cat'' ?st)
        = Inr (render_breaks App_markdown (markdown ?st))"
    by blast
  then have c: "highlightedText App_markdown (handlePreviewClick ''MARK'' ''cat'' ?st)
      = Inr ''cat cat dog''"
    by (simp add: render_breaks_def)
  from h1 h4 a b c show ?thesis by simp
qed

text \<open>
  In the source \<open>mark the cat\<close> with the targets \<open>cat\<close> and \<open>mark\<close>, selected in this
  order, the pass of \<open>mark\<close> rewrites the tag names of the wrapper around \<open>cat\<close>: the
  result holds no wrapper with the payload \<open>cat\<close>.
\<close>

theorem later_target_rewrites_earlier_wrapper:
  "highlightedText App_markdown
     \<lparr>markdown = ''mark the cat'', selections = [''cat'', ''mark''], viewMode = Select_mode,
      quizText = [], quizAnswers = []\<rparr>
   = Inr ((mark_open @ ''mark'' @ mark_close) @ '' the <''
       @ (mark_open @ ''mark'' @ mark_close) @ drop 5 mark_open @ ''cat</''
       @ (mark_open @ ''mark'' @ mark_close) @ ''>'')
   \<and> \<not> sublist (mark_open @ ''cat'' @ mark_close)
       ((mark_open @ ''mark'' @ mark_close) @ '' the <''
         @ (mark_open @ ''mark'' @ mark_close) @ drop 5 mark_open @ ''cat</''
         @ (mark_open @ ''mark'' @ mark_close) @ ''>'')"
  by code_simp

text \<open>
  A dollar sign in a target is read as part of a replacement pattern, since the target is
  spliced into the replacement string as it is: the wrapper around an occurrence of \<open>$$\<close>
  carries a single dollar sign, and a click on it removes nothing.
\<close>

lemma dollar_target_payload:
  "highlightedText App_markdown
     \<lparr>markdown = ''a$$b'', selections = [''$$''], viewMode = Select_mode,
      quizText = [], quizAnswers = []\<rparr>
   = Inr (''a'' @ mark_open @ ''$'' @ mark_close @ ''b'')
   \<and> handlePreviewClick ''MARK'' ''$''
       \<lparr>markdown = ''a$$b'', selections = [''$$''], viewMode = Select_mode,
        quizText = [], quizAnswers = []\<rparr>
     = \<lparr>markdown = ''a$$b'', selections = [''$$''], viewMode = Select_mode,
        quizText = [], quizAnswers = []\<rparr>"
  by code_simp

section \<open>From the quiz back to the source text\<close>

text \<open>
  C4, as the code has it. With a non-empty selection set of non-empty targets and a source
  text that holds none of the labels \<open>( No.1 )\<close>, ..., \<open>( No.n )\<close> of the \<open>n\<close> blanks,
  \<open>generateAndSetQuiz\<close> returns normally, and replacing in its quiz text the markers by
  the words of the answer list, from the last answer entry to the first, gives the source
  text. This holds whatever the targets are: each replacement undoes one pass of the
  generation, the last pass first.
\<close>

theorem answers_fill_blanks_back:
  assumes "selections st \<noteq> []" and "[] \<notin> set (selections st)"
    and "list_all (\<lambda>k. \<not> sublist (blank_label k) (markdown st))
           [1..<Suc (length (selections st))]"
  shows "\<exists>st'. generateAndSetQuiz v st = Inr st'
     \<and> fill_blanks v (quizAnswers st') (quizText st') = markdown st"
proof -
  have g: "generateAndSetQuiz v st
     = Inr (st\<lparr>quizText := blank_passes v 1 (selections st) (markdown st),
               quizAnswers := numbered 1 (selections st), viewMode := Quiz_mode\<rparr>)"
    using assms(1,2) by (rule generate_passes)
  have "fill_blanks v (numbered 1 (selections st))
      (blank_passes v 1 (selections st) (markdown st)) = markdown st"
  proof (rule round_trip_passes [OF assms(2)])
    fix j :: nat
    assume "1 \<le> j" "j < 1 + length (selections st)"
    then have "j \<in> set [1..<Suc (length (selections st))]" by auto
    with assms(3) show "\<not> sublist (blank_label j) (markdown st)"
      unfolding list_all_iff by blast
  qed
  with g show ?thesis by simp
qed

theorem answers_fill_blanks_back_witness:
  "selections \<lparr>markdown = ''cat 1'', selections = [''cat'', ''1''], viewMode = Select_mode,
       quizText = [], quizAnswers = []\<rparr> \<noteq> []
   \<and> [] \<notin> set [''cat'', ''1'']
   \<and> \<not> sublist (blank_label 1) ''cat 1'' \<and> \<not> sublist (blank_label 2) ''cat 1''
   \<and> generateAndSetQuiz App_tsx
       \<lparr>markdown = ''cat 1'', selections = [''cat'', ''1''], viewMode = Select_mode,
        quizText = [], quizAnswers = []\<rparr>
     = Inr \<lparr>markdown = ''cat 1'', selections = [''cat'', ''1''], viewMode = Quiz_mode,
        quizText = ''**( No.**( No.2 )** )** **( No.2 )**'',
        quizAnswers = [\<lparr>number = 1, word = ''cat''\<rparr>, \<lparr>number = 2, word = ''1''\<rparr>]\<rparr>
   \<and> fill_blanks App_tsx [\<lparr>number = 1, word = ''cat''\<rparr>, \<lparr>number = 2, word = ''1''\<rparr>]
       ''**( No.**( No.2 )** )** **( No.2 )**'' = ''cat 1''"
proof -
  let ?st = "\<lparr>markdown = ''cat 1'', selections = [''cat'', ''1''], viewMode = Select_mode,
       quizText = [], quizAnswers = []\<rparr>"
  have h1: "selections ?st \<noteq> []" by simp
  have h2: "[] \<notin> set (selections ?st)" by simp
  have l: "\<not> sublist (blank_label 1) ''cat 1''" "\<not> sublist (blank_label 2) ''cat 1''"
    by code_simp+
  have u: "[1..<Suc (length (selections ?st))] = [1, 2]" by code_simp
  have h3: "list_all (\<lambda>k. \<not> sublist (blank_label k) (markdown ?st))
      [1..<Suc (length (selections ?st))]"
    unfolding u using l by simp
  have g: "generateAndSetQuiz App_tsx ?st
     = Inr \<lparr>markdown = ''cat 1'', selections = [''cat'', ''1''], viewMode = Quiz_mode,
        quizText = ''**( No.**( No.2 )** )** **( No.2 )**'',
        quizAnswers = [\<lparr>number = 1, word = ''cat''\<rparr>, \<lparr>number = 2, word = ''1''\<rparr>]\<rparr>"
    by code_simp
  from answers_fill_blanks_back [OF h1 h2 h3, of App_tsx]
  have f: "fill_blanks App_tsx [\<lparr>number = 1, word = ''cat''\<rparr>, \<lparr>number = 2, word = ''1''\<rparr>]
       ''**( No.**( No.2 )** )** **( No.2 )**'' = ''cat 1''"
    unfolding g by simp
  from h1 l g f show ?thesis by simp
qed

text \<open>
  A source text that already holds the text of a marker does not come back: both the
  marker of the source text and the marker of the blank are replaced by the word.
\<close>

theorem marker_text_in_source_breaks_round_trip:
  "generateAndSetQuiz App_tsx
     \<lparr>markdown = ''**( No.1 )** cat'', selections = [''cat''], viewMode = Select_mode,
      quizText = [], quizAnswers = []\<rparr>
   = Inr \<lparr>markdown = ''**( No.1 )** cat'', selections = [''cat''], viewMode = Quiz_mode,
      quizText = ''**( No.1 )** **( No.1 )**'',
      quizAnswers = [\<lparr>number = 1, word = ''cat''\<rparr>]\<rparr>
   \<and> fill_blanks App_tsx [\<lparr>number = 1, word = ''cat''\<rparr>] ''**( No.1 )** **( No.1 )**''
     = ''cat cat''
   \<and> ''cat cat'' \<noteq> ''**( No.1 )** cat''"
  by code_simp

text \<open>
  The order of putting back matters: on the quiz text of the source \<open>cat 1\<close> with the
  targets \<open>cat\<close> and \<open>1\<close>, replacing the marker 1 first and the marker 2 after it does not
  give the source text.
\<close>

lemma ascending_fill_back_differs:
  "replace_every (blank_marker App_tsx 2) ''1''
     (replace_every (blank_marker App_tsx 1) ''cat'' ''**( No.**( No.2 )** )** **( No.2 )**'')
   = ''**( No.1 )** 1''"
  by code_simp

end
